theory Spec2Isabelle
  imports Complex_Main "HOL-Library.Sublist"
begin

text \<open>
  The converter \<open>html2csv_final.py\<close>: \<open>parse_temu_html\<close> reads product records
  out of a saved page, \<open>save_to_csv\<close> writes them to a file.  The library functions
  it calls (\<open>re\<close>, \<open>BeautifulSoup\<close>, \<open>csv\<close>, \<open>str\<close> methods) are modelled as far
  as the program uses them.  The two scripts that drive the browser are not modelled.
\<close>

section \<open>Strings\<close>

text \<open>
  A Python \<open>str\<close> is modelled as a \<open>string\<close> whose characters are the code points
  0..255, one \<open>char\<close> per code point, so that \<open>length\<close> is Python's \<open>len\<close>.
  Text with code points above 255 is outside the model.  On this alphabet \<open>\d\<close> is the
  ASCII digits, \<open>\s\<close> and \<open>str.strip()\<close> use the white space below, and
  \<open>re.IGNORECASE\<close> folds the ASCII letters of the patterns.
\<close>

definition digit_chars :: string where
  "digit_chars = ''0123456789''"

definition space_chars :: string where
  "space_chars = [CHR 0x09, CHR 0x0A, CHR 0x0B, CHR 0x0C, CHR 0x0D,
                  CHR 0x1C, CHR 0x1D, CHR 0x1E, CHR 0x1F, CHR 0x20, CHR 0x85, CHR 0xA0]"

definition is_digit :: "char \<Rightarrow> bool" where
  "is_digit c = (c \<in> set digit_chars)"

definition is_space :: "char \<Rightarrow> bool" where
  "is_space c = (c \<in> set space_chars)"

text \<open>\<open>sub in s\<close> for strings.\<close>

fun contains :: "string \<Rightarrow> string \<Rightarrow> bool" where
  "contains sub [] = (sub = [])"
| "contains sub (c # s) = (prefix sub (c # s) \<or> contains sub s)"

text \<open>\<open>s.startswith(p)\<close> is \<^const>\<open>prefix\<close>.  \<open>s.strip()\<close>:\<close>

definition strip :: "string \<Rightarrow> string" where
  "strip s = rev (dropWhile is_space (rev (dropWhile is_space s)))"

text \<open>\<open>s.replace(old, new)\<close>, for the non-empty \<open>old\<close> it is called with.\<close>

function replace :: "string \<Rightarrow> string \<Rightarrow> string \<Rightarrow> string" where
  "replace old new [] = []"
| "replace old new (c # s) =
     (if old \<noteq> [] \<and> prefix old (c # s)
      then new @ replace old new (drop (length old) (c # s))
      else c # replace old new s)"
  by pat_completeness auto
termination
  by (relation "measure (\<lambda>(old, new, s). length s)") (auto simp: neq_Nil_conv)

section \<open>Regular expressions of \<open>re\<close>\<close>

text \<open>
  The patterns of the program repeat single characters only, so a pattern is built from
  character sets, greedy repetitions of one set, sequence, alternation and one capturing
  group.  \<open>Beyond\<close> is a literal code point above 255 (the star glyph of the rating
  pattern): no character of a modelled string equals it.
\<close>

datatype cset = Chars string | NotNewline | Beyond

datatype rx =
    Once cset
  | Opt cset
  | Star cset
  | Plus cset
  | Seq rx rx
  | Alt rx rx
  | Grp rx

definition lower :: "char \<Rightarrow> char" where
  "lower c = (let n = of_char c :: int in if 65 \<le> n \<and> n \<le> 90 then char_of (n + 32) else c)"

fun in_cset :: "bool \<Rightarrow> cset \<Rightarrow> char \<Rightarrow> bool" where
  "in_cset ic (Chars xs) c = (if ic then lower c \<in> set (map lower xs) else c \<in> set xs)"
| "in_cset ic NotNewline c = (c \<noteq> CHR 0x0A)"
| "in_cset ic Beyond c = False"

text \<open>
  The remainders a greedy repetition can leave, longest match first: the order in which
  the backtracking matcher tries them.
\<close>

fun greedy :: "(char \<Rightarrow> bool) \<Rightarrow> string \<Rightarrow> string list" where
  "greedy p [] = [[]]"
| "greedy p (c # s) = (if p c then greedy p s @ [c # s] else [c # s])"

text \<open>
  \<open>matches ic r s\<close>: every way \<open>r\<close> matches a prefix of \<open>s\<close>, in the matcher's order of
  preference, each as the text of group 1 (if the group took part) and the remainder.
\<close>

fun matches :: "bool \<Rightarrow> rx \<Rightarrow> string \<Rightarrow> (string option \<times> string) list" where
  "matches ic (Once cs) s =
     (case s of [] \<Rightarrow> [] | c # t \<Rightarrow> if in_cset ic cs c then [(None, t)] else [])"
| "matches ic (Opt cs) s =
     (case s of [] \<Rightarrow> [(None, [])]
      | c # t \<Rightarrow> if in_cset ic cs c then [(None, t), (None, s)] else [(None, s)])"
| "matches ic (Star cs) s = map (Pair None) (greedy (in_cset ic cs) s)"
| "matches ic (Plus cs) s =
     (case s of [] \<Rightarrow> []
      | c # t \<Rightarrow> if in_cset ic cs c then map (Pair None) (greedy (in_cset ic cs) t) else [])"
| "matches ic (Seq r1 r2) s =
     concat (map (\<lambda>(g1, s1). map (\<lambda>(g2, s2). (case g2 of None \<Rightarrow> g1 | Some x \<Rightarrow> Some x, s2))
                                  (matches ic r2 s1))
                 (matches ic r1 s))"
| "matches ic (Alt r1 r2) s = matches ic r1 s @ matches ic r2 s"
| "matches ic (Grp r) s =
     map (\<lambda>(g, t). (Some (take (length s - length t) s), t)) (matches ic r s)"

text \<open>A match object: \<open>group()\<close>, \<open>group(1)\<close> and the text after the match.\<close>

record match_obj =
  whole :: string
  group1 :: "string option"
  after :: string

text \<open>
  \<open>m.group(1)\<close> as a string.  (Group 1 takes part in every match of the patterns it is
  asked of; the empty string stands for Python's \<open>None\<close>.)
\<close>

definition group :: "match_obj \<Rightarrow> string" where
  "group m = (case group1 m of Some g \<Rightarrow> g | None \<Rightarrow> [])"

text \<open>\<open>pattern.match\<close> at the start of \<open>s\<close>: the first way, if any.\<close>

definition match_here :: "bool \<Rightarrow> rx \<Rightarrow> string \<Rightarrow> match_obj option" where
  "match_here ic r s =
     (case matches ic r s of
        [] \<Rightarrow> None
      | (g, t) # _ \<Rightarrow> Some \<lparr>whole = take (length s - length t) s, group1 = g, after = t\<rparr>)"

text \<open>\<open>re.search\<close>: the match at the leftmost position that has one.\<close>

fun re_search :: "bool \<Rightarrow> rx \<Rightarrow> string \<Rightarrow> match_obj option" where
  "re_search ic r [] = match_here ic r []"
| "re_search ic r (c # s) =
     (case match_here ic r (c # s) of Some m \<Rightarrow> Some m | None \<Rightarrow> re_search ic r s)"

text \<open>
  \<open>re.findall\<close> for a pattern with one group: group 1 of every match, left to right,
  the matches not overlapping.  \<open>k\<close> counts the characters still covered by the last
  match.  (For the patterns of the program, which match no empty string.)
\<close>

fun findall_from :: "nat \<Rightarrow> bool \<Rightarrow> rx \<Rightarrow> string \<Rightarrow> string list" where
  "findall_from k ic r [] = []"
| "findall_from k ic r (c # s) =
     (if 0 < k then findall_from (k - 1) ic r s
      else case match_here ic r (c # s) of
             None \<Rightarrow> findall_from 0 ic r s
           | Some m \<Rightarrow> group m # findall_from (length (whole m) - 1) ic r s)"

definition re_findall :: "bool \<Rightarrow> rx \<Rightarrow> string \<Rightarrow> string list" where
  "re_findall ic r s = findall_from 0 ic r s"

text \<open>\<open>re.sub(pattern, repl, s)\<close>, under the same proviso.\<close>

fun sub_from :: "nat \<Rightarrow> rx \<Rightarrow> string \<Rightarrow> string \<Rightarrow> string" where
  "sub_from k r repl [] = []"
| "sub_from k r repl (c # s) =
     (if 0 < k then sub_from (k - 1) r repl s
      else case match_here False r (c # s) of
             None \<Rightarrow> c # sub_from 0 r repl s
           | Some m \<Rightarrow> repl @ sub_from (length (whole m) - 1) r repl s)"

definition re_sub :: "rx \<Rightarrow> string \<Rightarrow> string \<Rightarrow> string" where
  "re_sub r repl s = sub_from 0 r repl s"

text \<open>A literal string as a pattern.\<close>

fun lit :: "string \<Rightarrow> rx" where
  "lit [] = Star Beyond"
| "lit [c] = Once (Chars [c])"
| "lit (c # d # s) = Seq (Once (Chars [c])) (lit (d # s))"

subsection \<open>The patterns of the program\<close>

definition digit :: cset where "digit = Chars digit_chars"
definition space :: cset where "space = Chars space_chars"
definition dot :: cset where "dot = Chars ''.''"

text \<open>\<^verbatim>\<open>\d+\.?\d*\<close>\<close>
definition pat_number :: rx where
  "pat_number = Seq (Plus digit) (Seq (Opt dot) (Star digit))"

text \<open>\<^verbatim>\<open>/pk-en/.*\.html\<close>\<close>
definition pat_link :: rx where
  "pat_link = Seq (lit ''/pk-en/'') (Seq (Star NotNewline) (lit ''.html''))"

text \<open>\<^verbatim>\<open>Rs\.?\s*([0-9,]+\.?\d*)\<close>\<close>
definition pat_price :: rx where
  "pat_price = Seq (lit ''Rs'') (Seq (Opt dot) (Seq (Star space)
                 (Grp (Seq (Plus (Chars ''0123456789,'')) (Seq (Opt dot) (Star digit))))))"

text \<open>\<^verbatim>\<open>(\d+\.?\d*)K\<close>\<close>
definition pat_thousands :: rx where
  "pat_thousands = Seq (Grp pat_number) (lit ''K'')"

text \<open>\<^verbatim>\<open>(\d+\.?\d*K?\+?)\s*sold\<close>, with \<open>re.IGNORECASE\<close>\<close>
definition pat_sold :: rx where
  "pat_sold = Seq (Grp (Seq (Plus digit) (Seq (Opt dot) (Seq (Star digit)
                     (Seq (Opt (Chars ''K'')) (Opt (Chars ''+'')))))))
                (Seq (Star space) (lit ''sold''))"

text \<open>\<^verbatim>\<open>([0-5]\.?\d*)\s*(?:out of|*)\<close>, where * is the star glyph U+2605\<close>
definition pat_rating :: rx where
  "pat_rating = Seq (Grp (Seq (Once (Chars ''012345'')) (Seq (Opt dot) (Star digit))))
                  (Seq (Star space) (Alt (lit ''out of'') (Once Beyond)))"

text \<open>\<^verbatim>\<open>([4-5]\.\d+)\<close>\<close>
definition pat_standalone_rating :: rx where
  "pat_standalone_rating = Grp (Seq (Once (Chars ''45'')) (Seq (Once dot) (Plus digit)))"

text \<open>\<^verbatim>\<open>(\d+)\s*(?:review|rating)\<close>, with \<open>re.IGNORECASE\<close>\<close>
definition pat_review :: rx where
  "pat_review = Seq (Grp (Plus digit)) (Seq (Star space) (Alt (lit ''review'') (lit ''rating'')))"

text \<open>\<^verbatim>\<open>-g-(\d+)\<close>\<close>
definition pat_id :: rx where
  "pat_id = Seq (lit ''-g-'') (Grp (Plus digit))"

text \<open>\<^verbatim>\<open>\s+\<close>\<close>
definition pat_spaces :: rx where
  "pat_spaces = Plus space"

section \<open>Numbers\<close>

text \<open>
  A Python \<open>float\<close> is modelled by the rational number its decimal numeral denotes, and
  float arithmetic by exact arithmetic: rounding to binary floating point, overflow to
  infinity and the length limit of \<open>int()\<close> are outside the model.  A Python value that
  is an \<open>int\<close> or a \<open>float\<close> keeps its tag, since the two print differently.
\<close>

datatype num = PyInt int | PyFloat rat

fun num_val :: "num \<Rightarrow> rat" where
  "num_val (PyInt i) = of_int i"
| "num_val (PyFloat q) = q"

datatype py_error = ValueError

definition digit_val :: "char \<Rightarrow> int" where
  "digit_val c = of_char c - 48"

definition int_of_digits :: "string \<Rightarrow> int" where
  "int_of_digits s = foldl (\<lambda>n c. 10 * n + digit_val c) 0 s"

text \<open>
  \<open>int(s)\<close> and \<open>float(s)\<close> on plain decimal numerals: digits, and for \<open>float\<close> an
  optional point followed by digits.  The program passes them only texts matched by its
  digit patterns, which have this form; \<open>Inl ValueError\<close> stands for any other text.
\<close>

definition py_int :: "string \<Rightarrow> py_error + int" where
  "py_int s = (if s \<noteq> [] \<and> list_all is_digit s then Inr (int_of_digits s)
               else Inl ValueError)"

definition py_float :: "string \<Rightarrow> py_error + rat" where
  "py_float s =
     (let ip = takeWhile is_digit s; rest = dropWhile is_digit s in
      if ip = [] then Inl ValueError
      else case rest of
             [] \<Rightarrow> Inr (of_int (int_of_digits ip))
           | c # fp \<Rightarrow>
               if c = CHR ''.'' \<and> list_all is_digit fp
               then Inr (of_int (int_of_digits ip) + of_int (int_of_digits fp) / 10 ^ length fp)
               else Inl ValueError)"

text \<open>\<open>int(x)\<close> of a number truncates towards zero.\<close>

definition trunc :: "rat \<Rightarrow> int" where
  "trunc q = (if 0 \<le> q then \<lfloor>q\<rfloor> else - \<lfloor>- q\<rfloor>)"

fun int_of_num :: "num \<Rightarrow> int" where
  "int_of_num (PyInt i) = i"
| "int_of_num (PyFloat q) = trunc q"

text \<open>\<open>round(x, 2)\<close>: to the nearest multiple of 1/100, a tie to the even one.\<close>

definition round_half_even :: "rat \<Rightarrow> int" where
  "round_half_even q =
     (let f = \<lfloor>q\<rfloor>; d = q - of_int f in
      if d < 1 / 2 then f else if 1 / 2 < d then f + 1 else if even f then f else f + 1)"

definition round2 :: "rat \<Rightarrow> rat" where
  "round2 q = of_int (round_half_even (q * 100)) / 100"

text \<open>Sequencing of computations that may raise.\<close>

fun and_then :: "py_error + 'a \<Rightarrow> ('a \<Rightarrow> py_error + 'b) \<Rightarrow> py_error + 'b" where
  "and_then (Inl e) f = Inl e"
| "and_then (Inr x) f = f x"

fun for_each :: "('a \<Rightarrow> py_error + 'b) \<Rightarrow> 'a list \<Rightarrow> py_error + 'b list" where
  "for_each f [] = Inr []"
| "for_each f (x # xs) =
     and_then (f x) (\<lambda>y. and_then (for_each f xs) (\<lambda>ys. Inr (y # ys)))"

section \<open>Helper functions of the converter\<close>

definition extract_number :: "string \<Rightarrow> py_error + num option" where
  "extract_number text0 =
     (if text0 = [] then Inr None
      else
        let text = replace '' '' '''' (replace '','' '''' text0);
            plain = (case re_search False pat_number text of
                       Some m \<Rightarrow> and_then (py_float (whole m)) (\<lambda>q. Inr (Some (PyFloat q)))
                     | None \<Rightarrow> Inr None)
        in if contains ''K+'' text \<or> contains ''K'' text
           then (case re_search False pat_thousands text of
                   Some m \<Rightarrow> and_then (py_float (group m))
                               (\<lambda>q. Inr (Some (PyInt (trunc (q * 1000)))))
                 | None \<Rightarrow> plain)
           else plain)"

definition extract_price_from_text :: "string \<Rightarrow> py_error + rat option" where
  "extract_price_from_text text0 =
     (if text0 = [] then Inr None
      else
        let text = strip (replace '','' '''' (replace ''Rs'' '''' (replace ''Rs.'' '''' text0)))
        in case re_search False pat_number text of
             Some m \<Rightarrow> and_then (py_float (whole m)) (\<lambda>q. Inr (Some q))
           | None \<Rightarrow> Inr None)"

section \<open>The parsed document\<close>

text \<open>
  The tree \<open>BeautifulSoup(html_content, 'html.parser')\<close> builds: a tag with its name,
  attributes and children, a text node, or a string node that \<open>get_text\<close> leaves out
  (a comment, a doctype, the content of \<open>script\<close> and \<open>style\<close>).  The soup itself is
  the tag named \<open>[document]\<close>.  Reading the file and parsing the markup are library
  work and not modelled: \<open>parse_temu_html\<close> starts from the tree.
\<close>

datatype node =
    Tag string "(string \<times> string) list" "node list"
  | NavigableString string
  | Comment string

fun name :: "node \<Rightarrow> string" where
  "name (Tag n attrs kids) = n"
| "name (NavigableString s) = []"
| "name (Comment s) = []"

text \<open>\<open>tag.get(key, '')\<close>\<close>

fun get_attr :: "node \<Rightarrow> string \<Rightarrow> string" where
  "get_attr (Tag n attrs kids) key = (case map_of attrs key of Some v \<Rightarrow> v | None \<Rightarrow> [])"
| "get_attr (NavigableString s) key = []"
| "get_attr (Comment s) key = []"

text \<open>The text nodes below a node, in document order.\<close>

fun all_strings :: "node \<Rightarrow> string list" where
  "all_strings (Tag n attrs kids) = concat (map all_strings kids)"
| "all_strings (NavigableString s) = [s]"
| "all_strings (Comment s) = []"

text \<open>\<open>tag.get_text()\<close>\<close>

definition get_text :: "node \<Rightarrow> string" where
  "get_text t = concat (all_strings t)"

text \<open>\<open>tag.get_text(strip=True)\<close>: every text node stripped, the empty ones dropped.\<close>

definition get_text_strip :: "node \<Rightarrow> string" where
  "get_text_strip t = concat (filter (\<lambda>s. s \<noteq> []) (map strip (all_strings t)))"

text \<open>
  A node and everything below it in document order, each with its ancestors, the parent
  first: \<open>find_parent()\<close> of a node is the head of its ancestors, and of the soup is
  \<open>None\<close>.
\<close>

fun subtree :: "node list \<Rightarrow> node \<Rightarrow> (node \<times> node list) list" where
  "subtree ancs (Tag n attrs kids) =
     (Tag n attrs kids, ancs) # concat (map (subtree (Tag n attrs kids # ancs)) kids)"
| "subtree ancs (NavigableString s) = [(NavigableString s, ancs)]"
| "subtree ancs (Comment s) = [(Comment s, ancs)]"

text \<open>\<open>soup.find_all('a', href=re.compile(r'/pk-en/.*\.html'))\<close>\<close>

fun is_link :: "node \<Rightarrow> bool" where
  "is_link (Tag n attrs kids) =
     (n = ''a'' \<and> (case map_of attrs ''href'' of
                     Some h \<Rightarrow> re_search False pat_link h \<noteq> None
                   | None \<Rightarrow> False))"
| "is_link (NavigableString s) = False"
| "is_link (Comment s) = False"

definition product_links :: "node \<Rightarrow> (node \<times> node list) list" where
  "product_links soup = filter (\<lambda>(n, ancs). is_link n) (tl (subtree [] soup))"

section \<open>\<open>parse_temu_html\<close>\<close>

record product =
  product_id :: string
  title :: string
  current_price :: "rat option"
  original_price :: "rat option"
  discount_percent :: num
  sold_count :: int
  rating :: num
  review_count :: int
  url :: string

text \<open>The filter to actual product pages, on the href of a link.\<close>

definition skip_list :: "string list" where
  "skip_list = [''channel'', ''home-kitchen'', ''category'', ''search'']"

definition is_actual_product :: "string \<Rightarrow> bool" where
  "is_actual_product href =
     (if list_ex (\<lambda>skip. contains skip href) skip_list then False
      else 30 < length href \<and> contains ''-'' href)"

definition actual_products :: "node \<Rightarrow> (node \<times> node list) list" where
  "actual_products soup =
     filter (\<lambda>(link, ancs). is_actual_product (get_attr link ''href'')) (product_links soup)"

text \<open>
  The \<open>while\<close> loop over the parents of a link: it ends at a parent named \<open>body\<close>, at a
  parent whose text has \<open>Rs.\<close>, or with \<open>None\<close> above the soup.  (A tag is always true
  as a condition.)
\<close>

fun walk_up :: "node list \<Rightarrow> node option" where
  "walk_up [] = None"
| "walk_up (parent # ancs) =
     (if name parent \<noteq> ''body''
      then (if contains ''Rs.'' (get_text parent) then Some parent else walk_up ancs)
      else Some parent)"

text \<open>The container of a link with the given ancestors, after the fallback.\<close>

definition container :: "node list \<Rightarrow> node option" where
  "container ancs =
     (case walk_up ancs of
        Some parent \<Rightarrow> Some parent
      | None \<Rightarrow> (case ancs of [] \<Rightarrow> None | parent # _ \<Rightarrow> Some parent))"

definition container_text :: "node list \<Rightarrow> string" where
  "container_text ancs = (case container ancs of Some parent \<Rightarrow> get_text parent | None \<Rightarrow> [])"

text \<open>
  The fields read from the text of the container, in the order of the source.  A raised
  exception is \<open>Inl\<close>.
\<close>

definition extract_prices :: "string \<Rightarrow> py_error + rat list" where
  "extract_prices parent_text =
     and_then (for_each extract_price_from_text
                 (filter (\<lambda>p. p \<noteq> []) (re_findall False pat_price parent_text)))
       (\<lambda>prices. Inr (concat (map (\<lambda>p. case p of None \<Rightarrow> []
                                        | Some q \<Rightarrow> if q \<noteq> 0 \<and> 0 < q then [q] else []) prices)))"

definition current_of :: "rat list \<Rightarrow> rat option" where
  "current_of prices = (if 1 \<le> length prices then Some (prices ! 0) else None)"

definition original_of :: "rat list \<Rightarrow> rat option" where
  "original_of prices =
     (if 2 \<le> length prices \<and> prices ! 0 < prices ! 1 then Some (prices ! 1) else None)"

definition discount_of :: "rat option \<Rightarrow> rat option \<Rightarrow> num" where
  "discount_of cur orig =
     (case (orig, cur) of
        (Some orig_price, Some cur_price) \<Rightarrow>
          if orig_price \<noteq> 0 \<and> cur_price \<noteq> 0 \<and> cur_price < orig_price
          then PyFloat (round2 (((orig_price - cur_price) / orig_price) * 100))
          else PyInt 0
      | _ \<Rightarrow> PyInt 0)"

definition extract_sold :: "string \<Rightarrow> py_error + int" where
  "extract_sold parent_text =
     (case re_search True pat_sold parent_text of
        None \<Rightarrow> Inr 0
      | Some sold_match \<Rightarrow>
          and_then (extract_number (group sold_match))
            (\<lambda>n. Inr (int_of_num (case n of None \<Rightarrow> PyInt 0
                                   | Some v \<Rightarrow> if num_val v = 0 then PyInt 0 else v))))"

definition extract_rating :: "string \<Rightarrow> py_error + num" where
  "extract_rating parent_text =
     (let rating_match =
            (case re_search False pat_rating parent_text of
               Some m \<Rightarrow> Some m
             | None \<Rightarrow> re_search False pat_standalone_rating parent_text)
      in case rating_match of
           None \<Rightarrow> Inr (PyInt 0)
         | Some m \<Rightarrow> and_then (py_float (group m)) (\<lambda>q. Inr (PyFloat q)))"

definition extract_reviews :: "string \<Rightarrow> py_error + int" where
  "extract_reviews parent_text =
     (case re_search True pat_review parent_text of
        None \<Rightarrow> Inr 0
      | Some review_match \<Rightarrow> py_int (group review_match))"

definition extract_id :: "string \<Rightarrow> string" where
  "extract_id href =
     (case re_search False pat_id href of None \<Rightarrow> [] | Some id_match \<Rightarrow> group id_match)"

definition clean_title :: "string \<Rightarrow> string" where
  "clean_title t = strip (re_sub pat_spaces '' '' t)"

definition make_url :: "string \<Rightarrow> string" where
  "make_url href = (if \<not> prefix ''http'' href then ''https://www.temu.com'' @ href else href)"

text \<open>
  The body of the loop over the actual products, from the href of the link, its
  \<open>get_text(strip=True)\<close> and the text of its container: the record appended, or
  \<open>None\<close> when the title is too short.
\<close>

definition extract_product :: "string \<Rightarrow> string \<Rightarrow> string \<Rightarrow> py_error + product option" where
  "extract_product href title0 parent_text =
     and_then (extract_prices parent_text) (\<lambda>prices.
       let cur_price = current_of prices;
           orig_price = original_of prices;
           discount = discount_of cur_price orig_price
       in and_then (extract_sold parent_text) (\<lambda>sold.
            and_then (extract_rating parent_text) (\<lambda>stars.
              and_then (extract_reviews parent_text) (\<lambda>reviews.
                let pid = extract_id href;
                    cleaned = clean_title title0
                in if cleaned \<noteq> [] \<and> 5 < length cleaned
                   then Inr (Some \<lparr>product_id = pid, title = cleaned,
                                   current_price = cur_price,
                                   original_price = orig_price,
                                   discount_percent = discount, sold_count = sold,
                                   rating = stars, review_count = reviews,
                                   url = make_url href\<rparr>)
                   else Inr None))))"

definition process_link :: "node \<times> node list \<Rightarrow> py_error + product option" where
  "process_link = (\<lambda>(link, ancs).
     extract_product (get_attr link ''href'') (get_text_strip link) (container_text ancs))"

text \<open>
  The loop: a record is appended when the body yields one; a raised exception is caught
  and the link skipped.  (Printing is left out.)
\<close>

definition parse_temu_html :: "node \<Rightarrow> product list" where
  "parse_temu_html soup =
     concat (map (\<lambda>l. case process_link l of Inr (Some p) \<Rightarrow> [p] | Inr None \<Rightarrow> [] | Inl e \<Rightarrow> [])
                 (actual_products soup))"

section \<open>\<open>save_to_csv\<close>\<close>

text \<open>
  \<open>str\<close> of an \<open>int\<close>, and of a \<open>float\<close> in the plain decimal form Python prints
  between 1e-4 and 1e16: the integer part, a point, and the fraction digits (at most 17,
  at least one).
\<close>

definition digit_char :: "int \<Rightarrow> char" where
  "digit_char d = char_of (48 + d)"

function digits :: "int \<Rightarrow> string" where
  "digits n = (if n < 10 then [digit_char n] else digits (n div 10) @ [digit_char (n mod 10)])"
  by pat_completeness auto
termination
  by (relation "measure nat") auto

declare digits.simps [simp del]

fun frac_digits :: "nat \<Rightarrow> rat \<Rightarrow> string" where
  "frac_digits 0 r = []"
| "frac_digits (Suc k) r =
     (if r = 0 then [] else digit_char \<lfloor>r * 10\<rfloor> # frac_digits k (r * 10 - of_int \<lfloor>r * 10\<rfloor>))"

definition str_int :: "int \<Rightarrow> string" where
  "str_int i = (if i < 0 then ''-'' @ digits (- i) else digits i)"

definition str_float :: "rat \<Rightarrow> string" where
  "str_float q =
     (let a = \<bar>q\<bar>; fd = frac_digits 17 (a - of_int \<lfloor>a\<rfloor>)
      in (if q < 0 then ''-'' else []) @ digits \<lfloor>a\<rfloor> @ ''.'' @ (if fd = [] then ''0'' else fd))"

fun str_num :: "num \<Rightarrow> string" where
  "str_num (PyInt i) = str_int i"
| "str_num (PyFloat q) = str_float q"

text \<open>
  \<open>csv.writer\<close> with the default dialect: a field with a comma, a quote, a carriage
  return or a line feed is quoted and its quotes doubled; a row is its fields joined by
  commas and ended by \<open>\r\n\<close>.  A row that is one empty field is written as two quotes.
\<close>

definition CR :: char where "CR = CHR 0x0D"
definition LF :: char where "LF = CHR 0x0A"
definition quotechar :: char where "quotechar = CHR 0x22"
definition delimiter :: char where "delimiter = CHR '',''"

definition special :: "char \<Rightarrow> bool" where
  "special c = (c = delimiter \<or> c = quotechar \<or> c = CR \<or> c = LF)"

definition write_field :: "string \<Rightarrow> string" where
  "write_field f =
     (if list_ex special f
      then quotechar # concat (map (\<lambda>c. if c = quotechar then [c, c] else [c]) f) @ [quotechar]
      else f)"

fun join :: "string \<Rightarrow> string list \<Rightarrow> string" where
  "join sep [] = []"
| "join sep [x] = x"
| "join sep (x # y # ys) = x @ sep @ join sep (y # ys)"

definition writerow :: "string list \<Rightarrow> string" where
  "writerow row =
     (if row = [[]] then [quotechar, quotechar] else join [delimiter] (map write_field row))
     @ [CR, LF]"

definition fieldnames :: "string list" where
  "fieldnames =
     [''Product ID'', ''Title'', ''Current Price (Rs.)'', ''Original Price (Rs.)'',
      ''Discount (%)'', ''Items Sold'', ''Rating (Stars)'', ''Review Count'', ''Product URL'']"

text \<open>\<open>price or ''\<close>, as the writer prints it.\<close>

definition price_cell :: "rat option \<Rightarrow> string" where
  "price_cell p = (case p of None \<Rightarrow> [] | Some q \<Rightarrow> if q = 0 then [] else str_float q)"

text \<open>The dictionary given to \<open>writer.writerow\<close>, in the order of \<open>fieldnames\<close>.\<close>

definition row_of :: "product \<Rightarrow> string list" where
  "row_of p =
     [product_id p, title p, price_cell (current_price p), price_cell (original_price p),
      str_num (discount_percent p), str_int (sold_count p), str_num (rating p),
      str_int (review_count p), url p]"

text \<open>
  The file \<open>save_to_csv\<close> leaves: \<open>None\<close> when it returns without opening the file,
  else the header and one row for each product.
\<close>

definition save_to_csv :: "product list \<Rightarrow> string option" where
  "save_to_csv products =
     (if products = [] then None
      else Some (foldl (\<lambda>csvfile p. csvfile @ writerow (row_of p)) (writerow fieldnames) products))"

section \<open>Reading the file back\<close>

text \<open>
  \<open>csv.reader\<close> with the default dialect over a file opened with \<open>newline=''\<close>, as
  the \<open>csv\<close> module reads what its writer wrote.  The reader is fed the characters of
  each line and an end-of-line mark after each line, a line ending after a line feed,
  after a carriage return that no line feed follows, and at the end of the file.  The
  limit of the module on the size of a field is not modelled.
\<close>

datatype rstate =
  START_RECORD | START_FIELD | IN_FIELD | IN_QUOTED_FIELD | QUOTE_IN_QUOTED_FIELD | EAT_CRNL

record reader =
  state :: rstate
  field :: string
  fieldlist :: "string list"

datatype csv_error = Error

definition reset :: reader where
  "reset = \<lparr>state = START_RECORD, field = [], fieldlist = []\<rparr>"

definition save_field :: "reader \<Rightarrow> rstate \<Rightarrow> reader" where
  "save_field rd st = \<lparr>state = st, field = [], fieldlist = fieldlist rd @ [field rd]\<rparr>"

definition add_char :: "reader \<Rightarrow> char \<Rightarrow> rstate \<Rightarrow> reader" where
  "add_char rd c st = \<lparr>state = st, field = field rd @ [c], fieldlist = fieldlist rd\<rparr>"

text \<open>One character, or the end-of-line mark \<open>None\<close>.\<close>

fun process_char :: "reader \<Rightarrow> char option \<Rightarrow> csv_error + reader" where
  "process_char rd None =
     (case state rd of
        START_RECORD \<Rightarrow> Inr rd
      | START_FIELD \<Rightarrow> Inr (save_field rd START_RECORD)
      | IN_FIELD \<Rightarrow> Inr (save_field rd START_RECORD)
      | IN_QUOTED_FIELD \<Rightarrow> Inr rd
      | QUOTE_IN_QUOTED_FIELD \<Rightarrow> Inr (save_field rd START_RECORD)
      | EAT_CRNL \<Rightarrow> Inr (rd\<lparr>state := START_RECORD\<rparr>))"
| "process_char rd (Some c) =
     (case state rd of
        START_RECORD \<Rightarrow>
          if c = LF \<or> c = CR then Inr (rd\<lparr>state := EAT_CRNL\<rparr>)
          else if c = quotechar then Inr (rd\<lparr>state := IN_QUOTED_FIELD\<rparr>)
          else if c = delimiter then Inr (save_field rd START_FIELD)
          else Inr (add_char rd c IN_FIELD)
      | START_FIELD \<Rightarrow>
          if c = LF \<or> c = CR then Inr (save_field rd EAT_CRNL)
          else if c = quotechar then Inr (rd\<lparr>state := IN_QUOTED_FIELD\<rparr>)
          else if c = delimiter then Inr (save_field rd START_FIELD)
          else Inr (add_char rd c IN_FIELD)
      | IN_FIELD \<Rightarrow>
          if c = LF \<or> c = CR then Inr (save_field rd EAT_CRNL)
          else if c = delimiter then Inr (save_field rd START_FIELD)
          else Inr (add_char rd c IN_FIELD)
      | IN_QUOTED_FIELD \<Rightarrow>
          if c = quotechar then Inr (rd\<lparr>state := QUOTE_IN_QUOTED_FIELD\<rparr>)
          else Inr (add_char rd c IN_QUOTED_FIELD)
      | QUOTE_IN_QUOTED_FIELD \<Rightarrow>
          if c = quotechar then Inr (add_char rd c IN_QUOTED_FIELD)
          else if c = delimiter then Inr (save_field rd START_FIELD)
          else if c = LF \<or> c = CR then Inr (save_field rd EAT_CRNL)
          else Inr (add_char rd c IN_FIELD)
      | EAT_CRNL \<Rightarrow>
          if c = LF \<or> c = CR then Inr rd else Inl Error)"

text \<open>Whether a line ends after \<open>c\<close>, the rest of the file being \<open>s\<close>.\<close>

definition ends_line :: "char \<Rightarrow> string \<Rightarrow> bool" where
  "ends_line c s = (c = LF \<or> (c = CR \<and> (case s of [] \<Rightarrow> True | d # _ \<Rightarrow> d \<noteq> LF)) \<or> s = [])"

text \<open>
  The rows \<open>list(csv.reader(f))\<close> gives: a row is complete when the reader is back at
  the start of a record at the end of a line; at the end of the file, a field or a quoted
  field under way is closed into a last row.
\<close>

fun read_rows :: "reader \<Rightarrow> string \<Rightarrow> csv_error + string list list" where
  "read_rows rd [] =
     (if field rd \<noteq> [] \<or> state rd = IN_QUOTED_FIELD
      then Inr [fieldlist (save_field rd START_RECORD)] else Inr [])"
| "read_rows rd (c # s) =
     (case process_char rd (Some c) of
        Inl e \<Rightarrow> Inl e
      | Inr rd1 \<Rightarrow>
          if ends_line c s
          then (case process_char rd1 None of
                  Inl e \<Rightarrow> Inl e
                | Inr rd2 \<Rightarrow>
                    if state rd2 = START_RECORD
                    then (case read_rows reset s of
                            Inl e \<Rightarrow> Inl e
                          | Inr rows \<Rightarrow> Inr (fieldlist rd2 # rows))
                    else read_rows rd2 s)
          else read_rows rd1 s)"

definition csv_reader :: "string \<Rightarrow> csv_error + string list list" where
  "csv_reader file = read_rows reset file"

section \<open>The specification's words\<close>




section \<open>What the patterns match\<close>

text \<open>
  The texts a pattern matches as a whole, and the texts its group can hold.  The matcher
  is related to them below.
\<close>

fun lang :: "bool \<Rightarrow> rx \<Rightarrow> string set" where
  "lang ic (Once cs) = {[c] | c. in_cset ic cs c}"
| "lang ic (Opt cs) = insert [] {[c] | c. in_cset ic cs c}"
| "lang ic (Star cs) = {m. list_all (in_cset ic cs) m}"
| "lang ic (Plus cs) = {m. m \<noteq> [] \<and> list_all (in_cset ic cs) m}"
| "lang ic (Seq r1 r2) = {a @ b | a b. a \<in> lang ic r1 \<and> b \<in> lang ic r2}"
| "lang ic (Alt r1 r2) = lang ic r1 \<union> lang ic r2"
| "lang ic (Grp r) = lang ic r"

fun captures :: "bool \<Rightarrow> rx \<Rightarrow> string set" where
  "captures ic (Seq r1 r2) = captures ic r1 \<union> captures ic r2"
| "captures ic (Alt r1 r2) = captures ic r1 \<union> captures ic r2"
| "captures ic (Grp r) = lang ic r"
| "captures ic (Once cs) = {}"
| "captures ic (Opt cs) = {}"
| "captures ic (Star cs) = {}"
| "captures ic (Plus cs) = {}"

text \<open>Whether the group takes part in every match of a pattern.\<close>

fun has_group :: "rx \<Rightarrow> bool" where
  "has_group (Grp r) = True"
| "has_group (Seq r1 r2) = (has_group r1 \<or> has_group r2)"
| "has_group (Alt r1 r2) = (has_group r1 \<and> has_group r2)"
| "has_group (Once cs) = False"
| "has_group (Opt cs) = False"
| "has_group (Star cs) = False"
| "has_group (Plus cs) = False"

text \<open>A decimal numeral: digits, then possibly a point and digits.\<close>

definition numeral_form :: "string \<Rightarrow> bool" where
  "numeral_form x =
     (\<exists>a b c. x = a @ b @ c \<and> a \<noteq> [] \<and> list_all is_digit a \<and> (b = [] \<or> b = ''.'')
              \<and> list_all is_digit c)"

section \<open>Scenarios\<close>

text \<open>
  Scenario A: the href and the container text of the scenario, and a document holding
  them: a \<open>div\<close> with the link and, beside it, the text of the card.
\<close>

definition href_A :: string where
  "href_A = ''/pk-en/widget-thing-g-998877.html''"

definition text_A :: string where
  "text_A = ''Rs. 500 Rs. 1,200 3.2K+ sold 4.7 out of 5 120 reviews''"

definition record_A :: product where
  "record_A =
     \<lparr>product_id = ''998877'', title = ''Nice Widget'', current_price = Some 500,
      original_price = Some 1200, discount_percent = PyFloat (5833 / 100),
      sold_count = 3200, rating = PyFloat (47 / 10), review_count = 120,
      url = ''https://www.temu.com/pk-en/widget-thing-g-998877.html''\<rparr>"

definition soup_A :: node where
  "soup_A =
     Tag ''[document]'' []
       [Tag ''html'' []
          [Tag ''body'' []
             [Tag ''div'' []
                [Tag ''a'' [(''href'', href_A)] [NavigableString ''Nice Widget''],
                 Tag ''span'' [] [NavigableString text_A]]]]]"

definition empty_soup :: node where
  "empty_soup = Tag ''[document]'' [] []"

text \<open>
  A card like that of Scenario A around a link with the given href.  Scenario D: the
  href has the fragment \<open>category\<close>.  A product href of exactly 30 characters.
\<close>

definition card_soup :: "string \<Rightarrow> node" where
  "card_soup href =
     Tag ''[document]'' []
       [Tag ''html'' []
          [Tag ''body'' []
             [Tag ''div'' []
                [Tag ''a'' [(''href'', href)] [NavigableString ''Nice Widget''],
                 Tag ''span'' [] [NavigableString text_A]]]]]"

definition href_D :: string where
  "href_D = ''/pk-en/category-widget-thing-g-998877.html''"

definition href_30 :: string where
  "href_30 = ''/pk-en/widget-thing-g-998.html''"








definition card_with_text :: "string \<Rightarrow> node" where
  "card_with_text card_text =
     Tag ''[document]'' []
       [Tag ''html'' []
          [Tag ''body'' []
             [Tag ''div'' []
                [Tag ''a'' [(''href'', href_A)] [NavigableString ''Nice Widget''],
                 Tag ''span'' [] [NavigableString card_text]]]]]"


text \<open>A card text with a stock notice, and one with a price that has decimals.\<close>

definition text_stock :: string where
  "text_stock = ''Rs. 500 Only 12 out of 50 left''"

definition text_decimals :: string where
  "text_decimals = ''Rs. 1,245.50''"

text \<open>A record whose title has a comma, a quote and a line feed.\<close>

definition record_Q :: product where
  "record_Q =
     \<lparr>product_id = ''998877'', title = ''Nice, '' @ [quotechar] @ ''big'' @ [quotechar, LF] @ ''Widget'',
      current_price = Some 500, original_price = None, discount_percent = PyInt 0,
      sold_count = 3200, rating = PyFloat (47 / 10), review_count = 120,
      url = ''https://www.temu.com/pk-en/widget-thing-g-998877.html''\<rparr>"

section \<open>Scenario A\<close>

lemma extract_A: "extract_product href_A ''Nice Widget'' text_A = Inr (Some record_A)"
  by code_simp

lemma parse_A: "parse_temu_html soup_A = [record_A]"
  by code_simp

text \<open>
  C1.  On the href, the link text and the container text of Scenario A the loop body
  yields exactly the record of the scenario: id 998877, title Nice Widget, prices 500.0
  and 1200.0, discount 58.33, 3200 sold, rating 4.7, 120 reviews and the absolute URL.
  The same record, and nothing else, is what \<open>parse_temu_html\<close> returns for a document
  whose card holds that link beside that text.
\<close>

theorem scenario_A:
  "extract_product href_A ''Nice Widget'' text_A = Inr (Some record_A)
   \<and> parse_temu_html soup_A = [record_A]"
  using extract_A parse_A by simp

section \<open>Empty input\<close>

lemma parse_no_links: "actual_products soup = [] \<Longrightarrow> parse_temu_html soup = []"
  by (simp add: parse_temu_html_def)

text \<open>
  C8.  A document with no product link gives no record, the empty document among them,
  and on no records \<open>save_to_csv\<close> returns without writing a file.
\<close>

theorem empty_input:
  "(actual_products soup = [] \<longrightarrow> parse_temu_html soup = [])
   \<and> parse_temu_html empty_soup = []
   \<and> save_to_csv (parse_temu_html empty_soup) = None
   \<and> save_to_csv [] = None"
proof -
  have e: "actual_products empty_soup = []"
    by (simp add: actual_products_def product_links_def empty_soup_def)
  show ?thesis
    using parse_no_links [OF e] by (simp add: parse_no_links save_to_csv_def)
qed

theorem empty_input_witness:
  "actual_products empty_soup = [] \<and> parse_temu_html empty_soup = []
   \<and> save_to_csv [] = None"
  using empty_input [of empty_soup]
  by (simp add: actual_products_def product_links_def empty_soup_def)

section \<open>The matcher and the texts matched\<close>

lemma greedy_sound: "t \<in> set (greedy p s) \<Longrightarrow> \<exists>m. s = m @ t \<and> list_all p m"
proof (induction s)
  case Nil
  then show ?case by simp
next
  case (Cons c s)
  show ?case
  proof (cases "t = c # s")
    case True
    then show ?thesis by simp
  next
    case False
    with Cons.prems have pc: "p c" and "t \<in> set (greedy p s)"
      by (auto split: if_splits)
    with Cons.IH obtain m where "s = m @ t" "list_all p m" by blast
    with pc have "c # s = (c # m) @ t \<and> list_all p (c # m)" by simp
    then show ?thesis by blast
  qed
qed

lemma greedy_complete: "list_all p m \<Longrightarrow> t \<in> set (greedy p (m @ t))"
proof (induction m)
  case Nil
  then show ?case by (cases t) auto
next
  case (Cons c m)
  then show ?case by simp
qed

lemma matches_sound:
  "(g, t) \<in> set (matches ic r s) \<Longrightarrow>
     (\<exists>m. s = m @ t \<and> m \<in> lang ic r) \<and> (\<forall>x. g = Some x \<longrightarrow> x \<in> captures ic r)"
proof (induction r arbitrary: g t s)
  case (Once cs)
  then show ?case by (auto split: list.splits if_splits)
next
  case (Opt cs)
  then show ?case by (auto split: list.splits if_splits)
next
  case (Star cs)
  then show ?case by (auto dest: greedy_sound)
next
  case (Plus cs)
  then show ?case by (fastforce split: list.splits if_splits dest: greedy_sound)
next
  case (Seq r1 r2)
  from Seq.prems obtain g1 s1 g2 where
    m1: "(g1, s1) \<in> set (matches ic r1 s)" and m2: "(g2, t) \<in> set (matches ic r2 s1)"
    and g: "g = (case g2 of None \<Rightarrow> g1 | Some x \<Rightarrow> Some x)"
    by auto
  from Seq.IH(1) [OF m1] obtain a where a: "s = a @ s1" "a \<in> lang ic r1"
    and c1: "\<forall>x. g1 = Some x \<longrightarrow> x \<in> captures ic r1" by blast
  from Seq.IH(2) [OF m2] obtain b where b: "s1 = b @ t" "b \<in> lang ic r2"
    and c2: "\<forall>x. g2 = Some x \<longrightarrow> x \<in> captures ic r2" by blast
  have "s = (a @ b) @ t \<and> a @ b \<in> lang ic (Seq r1 r2)"
    using a b by auto
  moreover have "\<forall>x. g = Some x \<longrightarrow> x \<in> captures ic (Seq r1 r2)"
    using g c1 c2 by (auto split: option.splits)
  ultimately show ?case by blast
next
  case (Alt r1 r2)
  then show ?case by fastforce
next
  case (Grp r)
  from Grp.prems obtain g0 where m: "(g0, t) \<in> set (matches ic r s)"
    and g: "g = Some (take (length s - length t) s)" by auto
  from Grp.IH [OF m] obtain m' where "s = m' @ t" "m' \<in> lang ic r" by blast
  with g show ?case by auto
qed

lemma matches_complete:
  "m \<in> lang ic r \<Longrightarrow> \<exists>g. (g, t) \<in> set (matches ic r (m @ t))"
proof (induction r arbitrary: m t)
  case (Once cs)
  then show ?case by auto
next
  case (Opt cs)
  then show ?case by (cases t) auto
next
  case (Star cs)
  then show ?case by (auto intro: greedy_complete)
next
  case (Plus cs)
  then obtain c m' where "m = c # m'" "in_cset ic cs c" "list_all (in_cset ic cs) m'"
    by (cases m) auto
  then show ?case by (auto intro: greedy_complete)
next
  case (Seq r1 r2)
  then obtain a b where ab: "m = a @ b" "a \<in> lang ic r1" "b \<in> lang ic r2" by auto
  from Seq.IH(2) [OF ab(3)] obtain g2 where g2: "(g2, t) \<in> set (matches ic r2 (b @ t))" by blast
  from Seq.IH(1) [OF ab(2)] obtain g1 where g1: "(g1, b @ t) \<in> set (matches ic r1 (a @ b @ t))"
    by blast
  show ?case using g1 g2 ab(1) by force
next
  case (Alt r1 r2)
  then show ?case by fastforce
next
  case (Grp r)
  then show ?case by force
qed

lemma match_here_Some:
  "match_here ic r s = Some m \<Longrightarrow>
     s = whole m @ after m \<and> whole m \<in> lang ic r \<and> (group1 m = None \<or> group m \<in> captures ic r)"
proof -
  assume a: "match_here ic r s = Some m"
  then obtain g t rest where mt: "matches ic r s = (g, t) # rest"
    and m: "m = \<lparr>whole = take (length s - length t) s, group1 = g, after = t\<rparr>"
    by (auto simp: match_here_def split: list.splits)
  then have "(g, t) \<in> set (matches ic r s)" by simp
  from matches_sound [OF this] obtain w where "s = w @ t" "w \<in> lang ic r"
    and "\<forall>x. g = Some x \<longrightarrow> x \<in> captures ic r" by blast
  with m show ?thesis by (auto simp: group_def split: option.splits)
qed

lemma match_here_None: "match_here ic r (m @ t) = None \<Longrightarrow> m \<notin> lang ic r"
  using matches_complete [of m ic r t] by (auto simp: match_here_def split: list.splits)

lemma re_search_Some:
  "re_search ic r s = Some m \<Longrightarrow>
     (\<exists>p. s = p @ whole m @ after m) \<and> whole m \<in> lang ic r
     \<and> (group1 m = None \<or> group m \<in> captures ic r)"
proof (induction s)
  case Nil
  then have "match_here ic r [] = Some m" by simp
  from match_here_Some [OF this] show ?case by (metis append_Nil)
next
  case (Cons c s)
  show ?case
  proof (cases "match_here ic r (c # s)")
    case None
    with Cons have "\<exists>p. s = p @ whole m @ after m" and rest: "whole m \<in> lang ic r"
      "group1 m = None \<or> group m \<in> captures ic r" by auto
    then obtain p where "c # s = (c # p) @ whole m @ after m" by auto
    with rest show ?thesis by blast
  next
    case (Some m')
    with Cons.prems have "m' = m" by simp
    with Some match_here_Some [of ic r "c # s" m] show ?thesis by (metis append_Nil)
  qed
qed

lemma re_search_None: "re_search ic r (p @ m @ t) = None \<Longrightarrow> m \<notin> lang ic r"
proof (induction p)
  case Nil
  have "match_here ic r (m @ t) = None"
  proof (cases "m @ t")
    case Nil
    with Nil.prems show ?thesis by simp
  next
    case (Cons c u)
    with Nil.prems show ?thesis by (simp split: option.splits)
  qed
  then show ?case by (rule match_here_None)
next
  case (Cons c p)
  then show ?case by (auto split: option.splits)
qed

lemma re_search_iff:
  "re_search ic r s \<noteq> None \<longleftrightarrow> (\<exists>p m t. s = p @ m @ t \<and> m \<in> lang ic r)"
  using re_search_Some [of ic r s] re_search_None [of ic r] by (metis not_Some_eq)

section \<open>The filter on links\<close>

lemma list_all_False: "list_all (\<lambda>c. False) m \<longleftrightarrow> m = []"
  by (cases m) simp_all

lemma in_cset_Beyond: "in_cset ic Beyond = (\<lambda>c. False)"
  by (rule ext) simp

lemma in_cset_Chars: "in_cset False (Chars xs) = (\<lambda>c. c \<in> set xs)"
  by (rule ext) simp

lemma in_cset_NotNewline: "in_cset ic NotNewline = (\<lambda>c. c \<noteq> CHR 0x0A)"
  by (rule ext) simp

lemma lang_lit: "lang False (lit s) = {s}"
proof (induction s rule: lit.induct)
  case 1
  have "{m. list_all (\<lambda>c::char. False) m} = {[]}"
    using list_all_False by blast
  then show ?case by (simp add: in_cset_Beyond)
next
  case (2 c)
  show ?case by simp
next
  case (3 c d s)
  have "lang False (lit (c # d # s)) = {a @ b | a b. a \<in> {[c]} \<and> b \<in> {d # s}}"
    using 3 by simp
  then show ?case by simp
qed

lemma lang_pat_link:
  "lang False pat_link = {''/pk-en/'' @ m @ ''.html'' | m. CHR 0x0A \<notin> set m}"
proof -
  have "lang False pat_link =
          {a @ b | a b. a \<in> lang False (lit ''/pk-en/'')
                        \<and> b \<in> {m @ e | m e. m \<in> {m. list_all (\<lambda>c. c \<noteq> CHR 0x0A) m}
                                           \<and> e \<in> lang False (lit ''.html'')}}"
    unfolding pat_link_def lang.simps in_cset_NotNewline ..
  also have "\<dots> = {''/pk-en/'' @ m @ ''.html'' | m. CHR 0x0A \<notin> set m}"
    unfolding lang_lit by (auto simp: list_all_iff)
  finally show ?thesis .
qed

lemma contains_iff: "contains sub s \<longleftrightarrow> (\<exists>p q. s = p @ sub @ q)"
proof (induction s)
  case Nil
  then show ?case by auto
next
  case (Cons c s)
  show ?case
  proof
    assume "contains sub (c # s)"
    then consider "prefix sub (c # s)" | "contains sub s" by auto
    then show "\<exists>p q. c # s = p @ sub @ q"
    proof cases
      case 1
      then obtain q where "c # s = sub @ q" by (auto simp: prefix_def)
      then have "c # s = [] @ sub @ q" by simp
      then show ?thesis by blast
    next
      case 2
      with Cons.IH obtain p q where "s = p @ sub @ q" by blast
      then have "c # s = (c # p) @ sub @ q" by simp
      then show ?thesis by blast
    qed
  next
    assume "\<exists>p q. c # s = p @ sub @ q"
    then obtain p q where pq: "c # s = p @ sub @ q" by blast
    show "contains sub (c # s)"
    proof (cases p)
      case Nil
      with pq have "prefix sub (c # s)" by (simp add: prefix_def)
      then show ?thesis by simp
    next
      case (Cons d p')
      with pq have "s = p' @ sub @ q" by simp
      with Cons.IH show ?thesis by auto
    qed
  qed
qed

lemma contains_char: "contains [c] s \<longleftrightarrow> c \<in> set s"
  unfolding contains_iff by (simp add: in_set_conv_decomp)

lemma is_link_iff:
  "is_link link \<longleftrightarrow>
     (\<exists>attrs kids h. link = Tag ''a'' attrs kids \<and> map_of attrs ''href'' = Some h
        \<and> (\<exists>p m q. h = p @ ''/pk-en/'' @ m @ ''.html'' @ q \<and> CHR 0x0A \<notin> set m))"
proof (cases link)
  case (Tag n attrs kids)
  show ?thesis
  proof (cases "map_of attrs ''href''")
    case None
    with Tag show ?thesis by simp
  next
    case (Some h)
    have "re_search False pat_link h \<noteq> None \<longleftrightarrow>
            (\<exists>p m q. h = p @ ''/pk-en/'' @ m @ ''.html'' @ q \<and> CHR 0x0A \<notin> set m)"
      unfolding re_search_iff lang_pat_link
    proof
      assume "\<exists>p m t. h = p @ m @ t \<and> m \<in> {''/pk-en/'' @ m @ ''.html'' |m. CHR 0x0A \<notin> set m}"
      then obtain p t m where "h = p @ (''/pk-en/'' @ m @ ''.html'') @ t" "CHR 0x0A \<notin> set m"
        by blast
      then have "h = p @ ''/pk-en/'' @ m @ ''.html'' @ t \<and> CHR 0x0A \<notin> set m" by simp
      then show "\<exists>p m q. h = p @ ''/pk-en/'' @ m @ ''.html'' @ q \<and> CHR 0x0A \<notin> set m" by blast
    next
      assume "\<exists>p m q. h = p @ ''/pk-en/'' @ m @ ''.html'' @ q \<and> CHR 0x0A \<notin> set m"
      then obtain p m q where "h = p @ ''/pk-en/'' @ m @ ''.html'' @ q" "CHR 0x0A \<notin> set m"
        by blast
      then have "h = p @ (''/pk-en/'' @ m @ ''.html'') @ q
                 \<and> ''/pk-en/'' @ m @ ''.html'' \<in> {''/pk-en/'' @ m @ ''.html'' |m. CHR 0x0A \<notin> set m}"
        by simp
      then show "\<exists>p m t. h = p @ m @ t \<and> m \<in> {''/pk-en/'' @ m @ ''.html'' |m. CHR 0x0A \<notin> set m}"
        by blast
    qed
    with Tag Some show ?thesis by simp
  qed
qed simp_all

lemma is_actual_product_iff:
  "is_actual_product h \<longleftrightarrow>
     \<not> (\<exists>p q. h = p @ ''channel'' @ q) \<and> \<not> (\<exists>p q. h = p @ ''home-kitchen'' @ q)
     \<and> \<not> (\<exists>p q. h = p @ ''category'' @ q) \<and> \<not> (\<exists>p q. h = p @ ''search'' @ q)
     \<and> 30 < length h \<and> CHR ''-'' \<in> set h"
proof -
  have "is_actual_product h \<longleftrightarrow>
     \<not> contains ''channel'' h \<and> \<not> contains ''home-kitchen'' h
     \<and> \<not> contains ''category'' h \<and> \<not> contains ''search'' h
     \<and> 30 < length h \<and> contains ''-'' h"
    by (simp add: is_actual_product_def skip_list_def)
  then show ?thesis
    unfolding contains_char unfolding contains_iff .
qed

lemma actual_products_set:
  "set (actual_products soup) =
     {(link, ancs). (link, ancs) \<in> set (tl (subtree [] soup)) \<and> is_link link
                    \<and> is_actual_product (get_attr link ''href'')}"
  by (auto simp: actual_products_def product_links_def)

lemma records_from_actual_products:
  "r \<in> set (parse_temu_html soup) \<Longrightarrow>
     \<exists>link ancs. (link, ancs) \<in> set (actual_products soup) \<and> process_link (link, ancs) = Inr (Some r)"
proof -
  assume "r \<in> set (parse_temu_html soup)"
  then obtain l where l: "l \<in> set (actual_products soup)"
    and "r \<in> set (case process_link l of Inr (Some p) \<Rightarrow> [p] | Inr None \<Rightarrow> [] | Inl e \<Rightarrow> [])"
    by (auto simp: parse_temu_html_def)
  then have "process_link l = Inr (Some r)"
    by (auto split: sum.splits option.splits)
  moreover obtain link ancs where "l = (link, ancs)" by (cases l)
  ultimately show ?thesis using l by blast
qed

lemma actual_product_href:
  "(link, ancs) \<in> set (actual_products soup) \<Longrightarrow> is_actual_product (get_attr link ''href'')"
  by (simp add: actual_products_set)

text \<open>
  C6.  Every record comes from a link that passed the filter, and the href of such a link
  contains none of the fragments of the skip list (\<open>category\<close> and \<open>search\<close> among
  them), is longer than 30 characters and has a hyphen: a link that fails one of these
  never reaches the extraction of fields.  Scenario D: a card whose href has the fragment
  \<open>category\<close> gives no record.
\<close>

theorem links_filtered:
  "(r \<in> set (parse_temu_html soup) \<longrightarrow>
      (\<exists>link ancs. (link, ancs) \<in> set (actual_products soup)
                    \<and> process_link (link, ancs) = Inr (Some r)))
   \<and> ((link, ancs) \<in> set (actual_products soup) \<and> h = get_attr link ''href'' \<longrightarrow>
        \<not> (\<exists>p q. h = p @ ''channel'' @ q) \<and> \<not> (\<exists>p q. h = p @ ''home-kitchen'' @ q)
        \<and> \<not> (\<exists>p q. h = p @ ''category'' @ q) \<and> \<not> (\<exists>p q. h = p @ ''search'' @ q)
        \<and> 30 < length h \<and> CHR ''-'' \<in> set h)
   \<and> parse_temu_html (card_soup href_D) = []"
proof -
  have 1: "r \<in> set (parse_temu_html soup) \<longrightarrow>
      (\<exists>link ancs. (link, ancs) \<in> set (actual_products soup)
                    \<and> process_link (link, ancs) = Inr (Some r))"
    using records_from_actual_products by blast
  have 2: "parse_temu_html (card_soup href_D) = []" by code_simp
  have 3: "\<not> (\<exists>p q. h = p @ ''channel'' @ q) \<and> \<not> (\<exists>p q. h = p @ ''home-kitchen'' @ q)
        \<and> \<not> (\<exists>p q. h = p @ ''category'' @ q) \<and> \<not> (\<exists>p q. h = p @ ''search'' @ q)
        \<and> 30 < length h \<and> CHR ''-'' \<in> set h"
    if "(link, ancs) \<in> set (actual_products soup) \<and> h = get_attr link ''href''"
  proof -
    from that have "is_actual_product h" using actual_product_href by blast
    then show ?thesis unfolding is_actual_product_iff .
  qed
  from 1 2 3 show ?thesis by blast
qed

theorem links_filtered_witness:
  "record_A \<in> set (parse_temu_html soup_A)
   \<and> (\<exists>link ancs. (link, ancs) \<in> set (actual_products soup_A)
         \<and> process_link (link, ancs) = Inr (Some record_A)
         \<and> 30 < length (get_attr link ''href'') \<and> CHR ''-'' \<in> set (get_attr link ''href''))"
proof -
  have a: "record_A \<in> set (parse_temu_html soup_A)" using parse_A by simp
  from links_filtered [of record_A soup_A] a obtain link ancs
    where l: "(link, ancs) \<in> set (actual_products soup_A)"
      "process_link (link, ancs) = Inr (Some record_A)" by blast
  from links_filtered [of record_A soup_A link ancs "get_attr link ''href''"] l(1)
  have "30 < length (get_attr link ''href'') \<and> CHR ''-'' \<in> set (get_attr link ''href'')"
    by blast
  with a l show ?thesis by blast
qed

text \<open>
  C10.  A node survives the discovery of links exactly when it is an \<open>a\<close> tag whose href
  has \<open>/pk-en/\<close> followed, on the same line, by \<open>.html\<close>, has none of the four fragments
  \<open>channel\<close>, \<open>home-kitchen\<close>, \<open>category\<close>, \<open>search\<close>, is longer than 30 characters
  and has a hyphen.  The actual products are the surviving nodes of the document, so an
  href of 30 characters or less gives no record: a card that is otherwise that of
  Scenario A, with an href of exactly 30 characters, gives none.
\<close>

theorem link_filter_exact:
  "((is_link link \<and> is_actual_product (get_attr link ''href'')) \<longleftrightarrow>
      (\<exists>attrs kids h. link = Tag ''a'' attrs kids \<and> map_of attrs ''href'' = Some h
         \<and> (\<exists>p m q. h = p @ ''/pk-en/'' @ m @ ''.html'' @ q \<and> CHR 0x0A \<notin> set m)
         \<and> \<not> (\<exists>p q. h = p @ ''channel'' @ q) \<and> \<not> (\<exists>p q. h = p @ ''home-kitchen'' @ q)
         \<and> \<not> (\<exists>p q. h = p @ ''category'' @ q) \<and> \<not> (\<exists>p q. h = p @ ''search'' @ q)
         \<and> 30 < length h \<and> CHR ''-'' \<in> set h))
   \<and> set (actual_products soup) =
        {(l, ancs). (l, ancs) \<in> set (tl (subtree [] soup)) \<and> is_link l
                    \<and> is_actual_product (get_attr l ''href'')}
   \<and> (length (get_attr link ''href'') \<le> 30 \<longrightarrow> (link, ancs) \<notin> set (actual_products soup))
   \<and> length href_30 = 30 \<and> parse_temu_html (card_soup href_30) = []"
proof -
  define P where "P h \<longleftrightarrow> (\<exists>p m q. h = p @ ''/pk-en/'' @ m @ ''.html'' @ q \<and> CHR 0x0A \<notin> set m)"
    for h
  define Q where "Q h \<longleftrightarrow> \<not> (\<exists>p q. h = p @ ''channel'' @ q) \<and> \<not> (\<exists>p q. h = p @ ''home-kitchen'' @ q)
         \<and> \<not> (\<exists>p q. h = p @ ''category'' @ q) \<and> \<not> (\<exists>p q. h = p @ ''search'' @ q)
         \<and> 30 < length h \<and> CHR ''-'' \<in> set h" for h
  have l: "is_link link \<longleftrightarrow>
             (\<exists>attrs kids h. link = Tag ''a'' attrs kids \<and> map_of attrs ''href'' = Some h \<and> P h)"
    unfolding P_def by (rule is_link_iff)
  have a: "is_actual_product h \<longleftrightarrow> Q h" for h
    unfolding Q_def by (rule is_actual_product_iff)
  have "(is_link link \<and> is_actual_product (get_attr link ''href'')) \<longleftrightarrow>
          (\<exists>attrs kids h. link = Tag ''a'' attrs kids \<and> map_of attrs ''href'' = Some h
             \<and> P h \<and> Q h)"
    unfolding l a by (cases link) auto
  then have 1: "(is_link link \<and> is_actual_product (get_attr link ''href'')) \<longleftrightarrow>
      (\<exists>attrs kids h. link = Tag ''a'' attrs kids \<and> map_of attrs ''href'' = Some h
         \<and> (\<exists>p m q. h = p @ ''/pk-en/'' @ m @ ''.html'' @ q \<and> CHR 0x0A \<notin> set m)
         \<and> \<not> (\<exists>p q. h = p @ ''channel'' @ q) \<and> \<not> (\<exists>p q. h = p @ ''home-kitchen'' @ q)
         \<and> \<not> (\<exists>p q. h = p @ ''category'' @ q) \<and> \<not> (\<exists>p q. h = p @ ''search'' @ q)
         \<and> 30 < length h \<and> CHR ''-'' \<in> set h)"
    unfolding P_def Q_def .
  have "is_actual_product h \<Longrightarrow> 30 < length h" for h
    by (simp add: is_actual_product_def split: if_splits)
  then have 2: "length (get_attr link ''href'') \<le> 30 \<longrightarrow> (link, ancs) \<notin> set (actual_products soup)"
    using actual_product_href [of link ancs soup] by fastforce
  have 3: "length href_30 = 30" by (simp add: href_30_def)
  have 4: "parse_temu_html (card_soup href_30) = []" by code_simp
  from 1 2 3 4 actual_products_set [of soup] show ?thesis by blast
qed

theorem link_filter_exact_witness:
  "length (get_attr (Tag ''a'' [(''href'', href_30)] []) ''href'') \<le> 30
   \<and> (Tag ''a'' [(''href'', href_30)] [], []) \<notin> set (actual_products soup_A)"
proof -
  have b: "length (get_attr (Tag ''a'' [(''href'', href_30)] []) ''href'') \<le> 30"
    by (simp add: href_30_def)
  with link_filter_exact [of "Tag ''a'' [(''href'', href_30)] []" soup_A "[]"]
  have "(Tag ''a'' [(''href'', href_30)] [], []) \<notin> set (actual_products soup_A)" by blast
  with b show ?thesis by simp
qed

section \<open>The container of a link\<close>







section \<open>Numerals\<close>

lemma digit_code: "is_digit c \<Longrightarrow> 48 \<le> (of_char c :: int) \<and> (of_char c :: int) \<le> 57"
  by (auto simp: is_digit_def digit_chars_def)

lemma lower_cases:
  "lower c = c \<or> (65 \<le> (of_char c :: int) \<and> 97 \<le> (of_char (lower c) :: int))"
proof (cases "65 \<le> (of_char c :: int) \<and> (of_char c :: int) \<le> 90")
  case True
  then have "(of_char (char_of (of_char c + 32 :: int) :: char) :: int) = of_char c + 32"
    by (simp add: of_char_of)
  with True show ?thesis by (simp add: lower_def)
next
  case False
  then show ?thesis by (simp add: lower_def Let_def)
qed

lemma is_digit_lower: "is_digit (lower c) \<longleftrightarrow> is_digit c"
  using lower_cases [of c] digit_code [of c] digit_code [of "lower c"] by auto

lemma lower_digit_chars: "map lower digit_chars = digit_chars"
  by code_simp

lemma in_cset_digit: "in_cset ic digit = is_digit"
proof (rule ext)
  fix c
  have "lower c \<in> set (map lower digit_chars) \<longleftrightarrow> is_digit c"
    unfolding lower_digit_chars using is_digit_lower [of c] by (simp add: is_digit_def)
  then show "in_cset ic digit c = is_digit c"
    by (simp add: digit_def is_digit_def)
qed

lemma in_cset_dot: "in_cset False dot = (\<lambda>c. c = CHR ''.'')"
  by (rule ext) (simp add: dot_def)

lemma digit_val_nonneg: "is_digit c \<Longrightarrow> 0 \<le> digit_val c"
  using digit_code [of c] by (simp add: digit_val_def)

lemma foldl_digits_nonneg:
  "list_all is_digit s \<Longrightarrow> 0 \<le> a \<Longrightarrow> 0 \<le> foldl (\<lambda>n c. 10 * n + digit_val c) a s"
proof (induction s arbitrary: a)
  case Nil
  then show ?case by simp
next
  case (Cons c s)
  then have "0 \<le> 10 * a + digit_val c" using digit_val_nonneg [of c] by simp
  with Cons show ?case by simp
qed

lemma int_of_digits_nonneg: "list_all is_digit s \<Longrightarrow> 0 \<le> int_of_digits s"
  by (simp add: int_of_digits_def foldl_digits_nonneg)

lemma dot_not_digit: "\<not> is_digit CHR ''.''"
  by (simp add: is_digit_def digit_chars_def)

lemma py_float_numeral: "numeral_form x \<Longrightarrow> \<exists>q. py_float x = Inr q \<and> 0 \<le> q"
proof -
  assume "numeral_form x"
  then obtain a b c where x: "x = a @ b @ c" and a: "a \<noteq> []" "list_all is_digit a"
    and b: "b = [] \<or> b = ''.''" and c: "list_all is_digit c"
    by (auto simp: numeral_form_def)
  from b show ?thesis
  proof
    assume "b = []"
    with x a c have all: "list_all is_digit x" and ne: "x \<noteq> []" by simp_all
    then have tw: "takeWhile is_digit x = x" and dw: "dropWhile is_digit x = []"
      by (simp_all add: list_all_iff)
    have "py_float x = Inr (of_int (int_of_digits x))"
      unfolding py_float_def Let_def tw dw using ne by simp
    with int_of_digits_nonneg [OF all] show ?thesis by simp
  next
    assume "b = ''.''"
    with x have x': "x = a @ CHR ''.'' # c" by simp
    from a have tw: "takeWhile is_digit x = a" and dw: "dropWhile is_digit x = CHR ''.'' # c"
      unfolding x' by (simp_all add: list_all_iff takeWhile_append2 dropWhile_append2 dot_not_digit)
    have "py_float x =
        Inr (of_int (int_of_digits a) + of_int (int_of_digits c) / 10 ^ length c)"
      unfolding py_float_def Let_def tw dw using a c by simp
    moreover have "(0::rat) \<le> of_int (int_of_digits a) + of_int (int_of_digits c) / 10 ^ length c"
      using int_of_digits_nonneg [OF a(2)] int_of_digits_nonneg [OF c] by simp
    ultimately show ?thesis by simp
  qed
qed

lemma py_int_digits: "m \<noteq> [] \<Longrightarrow> list_all is_digit m \<Longrightarrow> \<exists>i. py_int m = Inr i \<and> 0 \<le> i"
  by (simp add: py_int_def int_of_digits_nonneg)

lemma numeral_formI:
  "a \<noteq> [] \<Longrightarrow> list_all is_digit a \<Longrightarrow> b = [] \<or> b = ''.'' \<Longrightarrow> list_all is_digit c \<Longrightarrow>
     numeral_form (a @ b @ c)"
  unfolding numeral_form_def by blast

lemma lang_pat_number: "x \<in> lang False pat_number \<Longrightarrow> numeral_form x"
proof -
  assume "x \<in> lang False pat_number"
  then obtain a b c where "x = a @ b @ c" "a \<noteq> []" "list_all is_digit a"
    "b = [] \<or> (\<exists>d. b = [d] \<and> d = CHR ''.'')" "list_all is_digit c"
    unfolding pat_number_def lang.simps in_cset_digit in_cset_dot by blast
  then show ?thesis using numeral_formI [of a b c] by auto
qed

lemma lang_rating_group:
  "x \<in> lang False (Seq (Once (Chars ''012345'')) (Seq (Opt dot) (Star digit))) \<Longrightarrow> numeral_form x"
proof -
  assume "x \<in> lang False (Seq (Once (Chars ''012345'')) (Seq (Opt dot) (Star digit)))"
  then obtain d b c where x: "x = [d] @ b @ c" and d: "in_cset False (Chars ''012345'') d"
    and b: "b = [] \<or> (\<exists>e. b = [e] \<and> e = CHR ''.'')" and c: "list_all is_digit c"
    unfolding lang.simps in_cset_digit in_cset_dot by blast
  from d have "is_digit d" by (auto simp: is_digit_def digit_chars_def)
  with x b c show ?thesis using numeral_formI [of "[d]" b c] by auto
qed

lemma lang_standalone_group:
  "x \<in> lang False (Seq (Once (Chars ''45'')) (Seq (Once dot) (Plus digit))) \<Longrightarrow> numeral_form x"
proof -
  assume "x \<in> lang False (Seq (Once (Chars ''45'')) (Seq (Once dot) (Plus digit)))"
  then obtain d b c where x: "x = [d] @ b @ c" and d: "in_cset False (Chars ''45'') d"
    and b: "\<exists>e. b = [e] \<and> e = CHR ''.''" and c: "list_all is_digit c"
    unfolding lang.simps in_cset_digit in_cset_dot by blast
  from d have "is_digit d" by (auto simp: is_digit_def digit_chars_def)
  with x b c show ?thesis using numeral_formI [of "[d]" b c] by auto
qed

lemma captures_lit: "captures ic (lit s) = {}"
  by (induction s rule: lit.induct) simp_all

lemma has_group_matches:
  "has_group r \<Longrightarrow> (g, t) \<in> set (matches ic r s) \<Longrightarrow> g \<noteq> None"
proof (induction r arbitrary: g t s)
  case (Seq r1 r2)
  from Seq.prems(2) obtain g1 s1 g2 where
    m1: "(g1, s1) \<in> set (matches ic r1 s)" and m2: "(g2, t) \<in> set (matches ic r2 s1)"
    and g: "g = (case g2 of None \<Rightarrow> g1 | Some x \<Rightarrow> Some x)"
    by auto
  from Seq.prems(1) consider "has_group r1" | "has_group r2" by auto
  then show ?case
  proof cases
    case 1
    from Seq.IH(1) [OF 1 m1] g show ?thesis by (auto split: option.splits)
  next
    case 2
    from Seq.IH(2) [OF 2 m2] g show ?thesis by (auto split: option.splits)
  qed
next
  case (Alt r1 r2)
  then show ?case by auto
next
  case (Grp r)
  then show ?case by auto
qed simp_all

lemma match_here_group:
  "has_group r \<Longrightarrow> match_here ic r s = Some m \<Longrightarrow> group m \<in> captures ic r"
proof -
  assume h: "has_group r" and a: "match_here ic r s = Some m"
  then obtain g t rest where mt: "matches ic r s = (g, t) # rest" and m: "group1 m = g"
    by (auto simp: match_here_def split: list.splits)
  then have "(g, t) \<in> set (matches ic r s)" by simp
  from has_group_matches [OF h this] m have "group1 m \<noteq> None" by simp
  with match_here_Some [OF a] show ?thesis by simp
qed

lemma re_search_match_here:
  "re_search ic r s = Some m \<Longrightarrow> \<exists>s'. match_here ic r s' = Some m"
  by (induction s) (auto split: option.splits)

lemma re_search_group:
  "has_group r \<Longrightarrow> re_search ic r s = Some m \<Longrightarrow> group m \<in> captures ic r"
  using re_search_match_here match_here_group by blast

section \<open>The fields never raise\<close>

lemma trunc_nonneg: "0 \<le> q \<Longrightarrow> 0 \<le> trunc q"
  by (simp add: trunc_def)

lemma search_number_ok:
  "re_search False pat_number t = Some m \<Longrightarrow> \<exists>q. py_float (whole m) = Inr q \<and> 0 \<le> q"
  using re_search_Some [of False pat_number t m] lang_pat_number py_float_numeral by blast

lemma extract_price_from_text_ok:
  "\<exists>v. extract_price_from_text t = Inr v \<and> (\<forall>q. v = Some q \<longrightarrow> 0 \<le> q)"
proof (cases "t = []")
  case True
  then show ?thesis by (simp add: extract_price_from_text_def)
next
  case False
  define u where "u = strip (replace '','' '''' (replace ''Rs'' '''' (replace ''Rs.'' '''' t)))"
  show ?thesis
  proof (cases "re_search False pat_number u")
    case None
    with False show ?thesis by (simp add: extract_price_from_text_def u_def)
  next
    case (Some m)
    from search_number_ok [OF Some] obtain q where "py_float (whole m) = Inr q" "0 \<le> q" by blast
    with False Some show ?thesis by (simp add: extract_price_from_text_def u_def)
  qed
qed

lemma captures_thousands: "captures False pat_thousands = lang False pat_number"
  by (simp add: pat_thousands_def)

lemma has_group_thousands: "has_group pat_thousands"
  by (simp add: pat_thousands_def)

lemma extract_number_ok:
  "\<exists>v. extract_number t = Inr v \<and> (\<forall>n. v = Some n \<longrightarrow> 0 \<le> num_val n)"
proof (cases "t = []")
  case True
  then show ?thesis by (simp add: extract_number_def)
next
  case False
  define u where "u = replace '' '' '''' (replace '','' '''' t)"
  define plain where "plain = (case re_search False pat_number u of
                       Some m \<Rightarrow> and_then (py_float (whole m)) (\<lambda>q. Inr (Some (PyFloat q)))
                     | None \<Rightarrow> Inr None)"
  have plain: "\<exists>v. plain = Inr v \<and> (\<forall>n. v = Some n \<longrightarrow> 0 \<le> num_val n)"
  proof (cases "re_search False pat_number u")
    case None
    then show ?thesis by (simp add: plain_def)
  next
    case (Some m)
    from search_number_ok [OF Some] obtain q where "py_float (whole m) = Inr q" "0 \<le> q" by blast
    with Some show ?thesis by (simp add: plain_def)
  qed
  have eq: "extract_number t =
      (if contains ''K+'' u \<or> contains ''K'' u
       then (case re_search False pat_thousands u of
               Some m \<Rightarrow> and_then (py_float (group m)) (\<lambda>q. Inr (Some (PyInt (trunc (q * 1000)))))
             | None \<Rightarrow> plain)
       else plain)"
    unfolding extract_number_def u_def plain_def Let_def using False by simp
  show ?thesis
  proof (cases "re_search False pat_thousands u")
    case None
    with eq plain show ?thesis by auto
  next
    case (Some m)
    from re_search_group [OF has_group_thousands Some]
    have "numeral_form (group m)" by (simp add: captures_thousands lang_pat_number)
    from py_float_numeral [OF this] obtain q where q: "py_float (group m) = Inr q" "0 \<le> q"
      by blast
    then have "0 \<le> trunc (q * 1000)" by (simp add: trunc_nonneg)
    with eq plain Some q show ?thesis by auto
  qed
qed

lemma for_each_ok:
  "(\<And>x. \<exists>y. f x = Inr y \<and> P y) \<Longrightarrow> \<exists>ys. for_each f xs = Inr ys \<and> list_all P ys"
proof (induction xs)
  case Nil
  then show ?case by simp
next
  case (Cons x xs)
  from Cons.prems obtain y where "f x = Inr y" "P y" by blast
  moreover from Cons obtain ys where "for_each f xs = Inr ys" "list_all P ys" by blast
  ultimately show ?case by simp
qed

text \<open>The positive price a matched numeral stands for, if any.\<close>

lemma for_each_prices:
  "for_each extract_price_from_text xs = Inr ys \<Longrightarrow>
     concat (map (\<lambda>p. case p of None \<Rightarrow> [] | Some q \<Rightarrow> if q \<noteq> 0 \<and> 0 < q then [q] else []) ys)
     = concat (map (\<lambda>p. case extract_price_from_text p of
                           Inr (Some q) \<Rightarrow> if 0 < q then [q] else [] | _ \<Rightarrow> []) xs)"
proof (induction xs arbitrary: ys)
  case Nil
  then show ?case by auto
next
  case (Cons x xs)
  obtain v where v: "extract_price_from_text x = Inr v"
    using extract_price_from_text_ok by blast
  with Cons.prems obtain vs where vs: "for_each extract_price_from_text xs = Inr vs" "ys = v # vs"
    by (cases "for_each extract_price_from_text xs") auto
  from Cons.IH [OF vs(1)] v vs(2) show ?case by (auto split: option.splits)
qed

lemma price_of_empty: "extract_price_from_text [] = Inr None"
  by (simp add: extract_price_from_text_def)

lemma concat_map_filter_nonempty:
  "concat (map (\<lambda>p. case extract_price_from_text p of
                       Inr (Some q) \<Rightarrow> if 0 < q then [q] else [] | _ \<Rightarrow> [])
               (filter (\<lambda>p. p \<noteq> []) xs))
   = concat (map (\<lambda>p. case extract_price_from_text p of
                         Inr (Some q) \<Rightarrow> if 0 < q then [q] else [] | _ \<Rightarrow> []) xs)"
  by (induction xs) (auto simp: price_of_empty)

lemma extract_prices_eq:
  "extract_prices t =
     Inr (concat (map (\<lambda>p. case extract_price_from_text p of
                              Inr (Some q) \<Rightarrow> if 0 < q then [q] else [] | _ \<Rightarrow> [])
                      (re_findall False pat_price t)))"
proof -
  obtain ys where ys: "for_each extract_price_from_text
                        (filter (\<lambda>p. p \<noteq> []) (re_findall False pat_price t)) = Inr ys"
    using for_each_ok [of extract_price_from_text "\<lambda>v. \<forall>q. v = Some q \<longrightarrow> 0 \<le> q"]
      extract_price_from_text_ok by blast
  show ?thesis
    unfolding extract_prices_def ys and_then.simps for_each_prices [OF ys]
      concat_map_filter_nonempty ..
qed

lemma extract_prices_positive: "extract_prices t = Inr prices \<Longrightarrow> list_all (\<lambda>p. 0 < p) prices"
  unfolding extract_prices_eq by (auto simp: list_all_iff split: sum.splits option.splits if_splits)

lemma has_group_sold: "has_group pat_sold"
  by (simp add: pat_sold_def)

lemma extract_sold_ok: "\<exists>n. extract_sold t = Inr n \<and> 0 \<le> n"
proof (cases "re_search True pat_sold t")
  case None
  then show ?thesis by (simp add: extract_sold_def)
next
  case (Some m)
  obtain v where v: "extract_number (group m) = Inr v" "\<forall>n. v = Some n \<longrightarrow> 0 \<le> num_val n"
    using extract_number_ok by blast
  have "0 \<le> int_of_num (case v of None \<Rightarrow> PyInt 0 | Some w \<Rightarrow> if num_val w = 0 then PyInt 0 else w)"
  proof (cases v)
    case None
    then show ?thesis by simp
  next
    case (Some w)
    with v(2) have "0 \<le> num_val w" by simp
    then have "0 \<le> int_of_num w" by (cases w) (simp_all add: trunc_nonneg)
    with Some show ?thesis by simp
  qed
  with Some v(1) show ?thesis by (simp add: extract_sold_def)
qed

lemma captures_rating:
  "captures False pat_rating
     = lang False (Seq (Once (Chars ''012345'')) (Seq (Opt dot) (Star digit)))"
  unfolding pat_rating_def captures.simps captures_lit by simp

lemma captures_standalone:
  "captures False pat_standalone_rating
     = lang False (Seq (Once (Chars ''45'')) (Seq (Once dot) (Plus digit)))"
  unfolding pat_standalone_rating_def captures.simps ..

lemma has_group_rating: "has_group pat_rating" "has_group pat_standalone_rating"
  by (simp_all add: pat_rating_def pat_standalone_rating_def)

lemma extract_rating_ok: "\<exists>n. extract_rating t = Inr n \<and> 0 \<le> num_val n"
proof -
  define rating_match where "rating_match =
            (case re_search False pat_rating t of
               Some m \<Rightarrow> Some m
             | None \<Rightarrow> re_search False pat_standalone_rating t)"
  have eq: "extract_rating t = (case rating_match of
           None \<Rightarrow> Inr (PyInt 0)
         | Some m \<Rightarrow> and_then (py_float (group m)) (\<lambda>q. Inr (PyFloat q)))"
    by (simp add: extract_rating_def rating_match_def)
  show ?thesis
  proof (cases rating_match)
    case None
    with eq show ?thesis by simp
  next
    case (Some m)
    have "numeral_form (group m)"
    proof (cases "re_search False pat_rating t")
      case None
      with Some have "re_search False pat_standalone_rating t = Some m"
        by (simp add: rating_match_def)
      from re_search_group [OF has_group_rating(2) this] show ?thesis
        unfolding captures_standalone by (rule lang_standalone_group)
    next
      case (Some m')
      with \<open>rating_match = Some m\<close> have "re_search False pat_rating t = Some m"
        by (simp add: rating_match_def)
      from re_search_group [OF has_group_rating(1) this] show ?thesis
        unfolding captures_rating by (rule lang_rating_group)
    qed
    from py_float_numeral [OF this] obtain q where "py_float (group m) = Inr q" "0 \<le> q" by blast
    with eq Some show ?thesis by simp
  qed
qed

lemma captures_review: "captures True pat_review = {m. m \<noteq> [] \<and> list_all is_digit m}"
  unfolding pat_review_def captures.simps captures_lit lang.simps in_cset_digit by simp

lemma has_group_review: "has_group pat_review"
  by (simp add: pat_review_def)

lemma extract_reviews_ok: "\<exists>n. extract_reviews t = Inr n \<and> 0 \<le> n"
proof (cases "re_search True pat_review t")
  case None
  then show ?thesis by (simp add: extract_reviews_def)
next
  case (Some m)
  from re_search_group [OF has_group_review Some]
  have "group m \<noteq> []" "list_all is_digit (group m)" by (simp_all add: captures_review)
  from py_int_digits [OF this] Some show ?thesis by (simp add: extract_reviews_def)
qed

lemma extract_product_eq:
  "extract_prices text = Inr prices \<Longrightarrow> extract_sold text = Inr sold \<Longrightarrow>
   extract_rating text = Inr stars \<Longrightarrow> extract_reviews text = Inr reviews \<Longrightarrow>
   extract_product href t text =
     (if 5 < length (clean_title t)
      then Inr (Some \<lparr>product_id = extract_id href, title = clean_title t,
                      current_price = current_of prices, original_price = original_of prices,
                      discount_percent = discount_of (current_of prices) (original_of prices),
                      sold_count = sold, rating = stars, review_count = reviews,
                      url = make_url href\<rparr>)
      else Inr None)"
  by (auto simp: extract_product_def Let_def)

lemma extract_product_fields:
  "\<exists>prices sold stars reviews.
     extract_prices text = Inr prices \<and> list_all (\<lambda>p. 0 < p) prices
     \<and> extract_sold text = Inr sold \<and> 0 \<le> sold
     \<and> extract_rating text = Inr stars \<and> 0 \<le> num_val stars
     \<and> extract_reviews text = Inr reviews \<and> 0 \<le> reviews
     \<and> extract_product href t text =
         (if 5 < length (clean_title t)
          then Inr (Some \<lparr>product_id = extract_id href, title = clean_title t,
                          current_price = current_of prices, original_price = original_of prices,
                          discount_percent = discount_of (current_of prices) (original_of prices),
                          sold_count = sold, rating = stars, review_count = reviews,
                          url = make_url href\<rparr>)
          else Inr None)"
proof -
  obtain prices where p: "extract_prices text = Inr prices" by (simp add: extract_prices_eq)
  obtain sold where s: "extract_sold text = Inr sold" "0 \<le> sold" using extract_sold_ok by blast
  obtain stars where r: "extract_rating text = Inr stars" "0 \<le> num_val stars"
    using extract_rating_ok by blast
  obtain reviews where v: "extract_reviews text = Inr reviews" "0 \<le> reviews"
    using extract_reviews_ok by blast
  from extract_product_eq [OF p s(1) r(1) v(1)] extract_prices_positive [OF p] p s r v
  show ?thesis by blast
qed

section \<open>Prices and discount\<close>







section \<open>The rating\<close>

lemma round_half_even_nonneg: "0 \<le> q \<Longrightarrow> 0 \<le> round_half_even q"
proof -
  assume "0 \<le> q"
  then have "0 \<le> \<lfloor>q\<rfloor>" by simp
  then show ?thesis by (simp add: round_half_even_def Let_def)
qed

lemma discount_nonneg:
  assumes "list_all (\<lambda>p. 0 < p) prices"
  shows "0 \<le> num_val (discount_of (current_of prices) (original_of prices))"
proof (cases prices)
  case Nil
  then show ?thesis by (simp add: discount_of_def current_of_def original_of_def)
next
  case (Cons p1 ps)
  note c1 = Cons
  show ?thesis
  proof (cases ps)
    case Nil
    with c1 show ?thesis by (simp add: discount_of_def current_of_def original_of_def)
  next
    case (Cons p2 qs)
    with c1 assms have pos: "0 < p1" "0 < p2" by simp_all
    show ?thesis
    proof (cases "p1 < p2")
      case True
      with pos have "0 \<le> (p2 - p1) / p2" by simp
      then have "0 \<le> (p2 - p1) / p2 * 100 * 100"
        by (intro mult_nonneg_nonneg) simp_all
      then have "0 \<le> round_half_even ((p2 - p1) / p2 * 100 * 100)"
        by (rule round_half_even_nonneg)
      with c1 Cons pos True show ?thesis
        by (simp add: discount_of_def current_of_def original_of_def round2_def)
    next
      case False
      with c1 Cons show ?thesis by (simp add: discount_of_def current_of_def original_of_def)
    qed
  qed
qed

lemma numeric_fields_nonnegative:
  assumes "extract_product href t text = Inr (Some r)"
  shows "(\<forall>p. current_price r = Some p \<longrightarrow> 0 < p) \<and> (\<forall>p. original_price r = Some p \<longrightarrow> 0 < p)
         \<and> 0 \<le> num_val (discount_percent r) \<and> 0 \<le> sold_count r
         \<and> 0 \<le> num_val (rating r) \<and> 0 \<le> review_count r"
proof -
  obtain prices sold stars reviews where
    p: "list_all (\<lambda>p. 0 < p) prices" and s: "0 \<le> sold" "0 \<le> num_val stars" "0 \<le> reviews"
    and e: "extract_product href t text =
         (if 5 < length (clean_title t)
          then Inr (Some \<lparr>product_id = extract_id href, title = clean_title t,
                          current_price = current_of prices, original_price = original_of prices,
                          discount_percent = discount_of (current_of prices) (original_of prices),
                          sold_count = sold, rating = stars, review_count = reviews,
                          url = make_url href\<rparr>)
          else Inr None)"
    using extract_product_fields [of "text" href t] by blast
  from assms e have r: "current_price r = current_of prices" "original_price r = original_of prices"
      "discount_percent r = discount_of (current_of prices) (original_of prices)"
      "sold_count r = sold" "rating r = stars" "review_count r = reviews"
    by (auto split: if_splits)
  have c: "\<forall>x. current_of prices = Some x \<longrightarrow> 0 < x"
    using p by (cases prices) (simp_all add: current_of_def)
  have o: "\<forall>x. original_of prices = Some x \<longrightarrow> 0 < x"
    using p by (auto simp: original_of_def list_all_length split: if_splits)
  have d: "0 \<le> num_val (discount_of (current_of prices) (original_of prices))"
    using p by (rule discount_nonneg)
  from c o d s r show ?thesis by simp
qed

lemma rating_stock: "extract_rating text_stock = Inr (PyFloat 12)"
  by code_simp

lemma rating_decimals: "extract_rating text_decimals = Inr (PyFloat (11 / 2))"
  by code_simp

lemma rating_card_stock: "map rating (parse_temu_html (card_with_text text_stock)) = [PyFloat 12]"
  by code_simp

text \<open>
  C2.  The rating is not confined to the interval from 0 to 5.  The rating pattern takes
  a first digit from 0 to 5 and then any further digits, so on a card with the notice
  \<open>Only 12 out of 50 left\<close> the rating of the record is 12.0; the fallback pattern
  reads 5.5 out of the price \<open>Rs. 1,245.50\<close>.
\<close>

theorem rating_above_five:
  "extract_rating text_stock = Inr (PyFloat 12)
   \<and> map rating (parse_temu_html (card_with_text text_stock)) = [PyFloat 12]
   \<and> 5 < num_val (PyFloat 12)
   \<and> extract_rating text_decimals = Inr (PyFloat (11 / 2))
   \<and> 5 < num_val (PyFloat (11 / 2))"
  using rating_stock rating_decimals rating_card_stock by simp

section \<open>The validity gate\<close>












section \<open>Writing and reading back\<close>

lemma chars_distinct:
  "quotechar \<noteq> CR" "quotechar \<noteq> LF" "delimiter \<noteq> CR" "delimiter \<noteq> LF"
  "delimiter \<noteq> quotechar" "CR \<noteq> LF"
  "CR \<noteq> quotechar" "LF \<noteq> quotechar" "CR \<noteq> delimiter" "LF \<noteq> delimiter"
  "quotechar \<noteq> delimiter" "LF \<noteq> CR"
  by (simp_all add: CR_def LF_def quotechar_def delimiter_def)

lemma ends_line_plain: "c \<noteq> LF \<Longrightarrow> c \<noteq> CR \<Longrightarrow> s \<noteq> [] \<Longrightarrow> \<not> ends_line c s"
  by (simp add: ends_line_def)

lemma ends_line_CR_LF: "\<not> ends_line CR (LF # s)"
  by (simp add: ends_line_def chars_distinct)

lemma ends_line_LF: "ends_line LF s"
  by (simp add: ends_line_def)

lemma read_unquoted:
  "\<not> list_ex special f \<Longrightarrow> rest \<noteq> [] \<Longrightarrow>
     read_rows \<lparr>state = IN_FIELD, field = b, fieldlist = fl\<rparr> (f @ rest)
     = read_rows \<lparr>state = IN_FIELD, field = b @ f, fieldlist = fl\<rparr> rest"
proof (induction f arbitrary: b)
  case Nil
  then show ?case by simp
next
  case (Cons c f)
  from Cons.prems(1) have f: "\<not> list_ex special f" and "\<not> special c" by simp_all
  then have c: "c \<noteq> delimiter" "c \<noteq> quotechar" "c \<noteq> CR" "c \<noteq> LF"
    by (simp_all add: special_def)
  from c Cons.prems(2) have e: "\<not> ends_line c (f @ rest)" by (simp add: ends_line_plain)
  have "read_rows \<lparr>state = IN_FIELD, field = b, fieldlist = fl\<rparr> ((c # f) @ rest)
        = read_rows \<lparr>state = IN_FIELD, field = b @ [c], fieldlist = fl\<rparr> (f @ rest)"
    using c e by (simp add: add_char_def)
  also have "\<dots> = read_rows \<lparr>state = IN_FIELD, field = (b @ [c]) @ f, fieldlist = fl\<rparr> rest"
    using f Cons.prems(2) by (rule Cons.IH)
  finally show ?case by simp
qed

lemma read_unquoted_start:
  "f \<noteq> [] \<Longrightarrow> \<not> list_ex special f \<Longrightarrow> rest \<noteq> [] \<Longrightarrow> st = START_RECORD \<or> st = START_FIELD \<Longrightarrow>
     read_rows \<lparr>state = st, field = [], fieldlist = fl\<rparr> (f @ rest)
     = read_rows \<lparr>state = IN_FIELD, field = f, fieldlist = fl\<rparr> rest"
proof -
  assume ne: "f \<noteq> []" and ns: "\<not> list_ex special f" and r: "rest \<noteq> []"
    and st: "st = START_RECORD \<or> st = START_FIELD"
  from ne obtain c g where f: "f = c # g" by (cases f) auto
  with ns have g: "\<not> list_ex special g" and "\<not> special c" by simp_all
  then have c: "c \<noteq> delimiter" "c \<noteq> quotechar" "c \<noteq> CR" "c \<noteq> LF"
    by (simp_all add: special_def)
  from c r have e: "\<not> ends_line c (g @ rest)" by (simp add: ends_line_plain)
  have "read_rows \<lparr>state = st, field = [], fieldlist = fl\<rparr> (f @ rest)
        = read_rows \<lparr>state = IN_FIELD, field = [c], fieldlist = fl\<rparr> (g @ rest)"
    using st c e f by (auto simp: add_char_def)
  also have "\<dots> = read_rows \<lparr>state = IN_FIELD, field = [c] @ g, fieldlist = fl\<rparr> rest"
    using g r by (rule read_unquoted)
  finally show ?thesis using f by simp
qed

lemma read_quoted_body:
  "rest \<noteq> [] \<Longrightarrow>
     read_rows \<lparr>state = IN_QUOTED_FIELD, field = b, fieldlist = fl\<rparr>
       (concat (map (\<lambda>c. if c = quotechar then [c, c] else [c]) f) @ rest)
     = read_rows \<lparr>state = IN_QUOTED_FIELD, field = b @ f, fieldlist = fl\<rparr> rest"
proof (induction f arbitrary: b)
  case Nil
  then show ?case by simp
next
  case (Cons c f)
  let ?tail = "concat (map (\<lambda>c. if c = quotechar then [c, c] else [c]) f) @ rest"
  from Cons.prems have t: "?tail \<noteq> []" by simp
  have step: "read_rows \<lparr>state = IN_QUOTED_FIELD, field = b, fieldlist = fl\<rparr>
                ((if c = quotechar then [c, c] else [c]) @ ?tail)
              = read_rows \<lparr>state = IN_QUOTED_FIELD, field = b @ [c], fieldlist = fl\<rparr> ?tail"
  proof (cases "c = quotechar")
    case True
    have e1: "\<not> ends_line quotechar (quotechar # ?tail)"
      by (simp add: ends_line_plain chars_distinct)
    have e2: "\<not> ends_line quotechar ?tail"
      using t by (simp add: ends_line_plain chars_distinct)
    from True e1 e2 show ?thesis by (simp add: add_char_def)
  next
    case False
    then show ?thesis by (simp add: add_char_def)
  qed
  have "read_rows \<lparr>state = IN_QUOTED_FIELD, field = b, fieldlist = fl\<rparr>
          (concat (map (\<lambda>c. if c = quotechar then [c, c] else [c]) (c # f)) @ rest)
        = read_rows \<lparr>state = IN_QUOTED_FIELD, field = b @ [c], fieldlist = fl\<rparr> ?tail"
    using step by simp
  also have "\<dots> = read_rows \<lparr>state = IN_QUOTED_FIELD, field = (b @ [c]) @ f, fieldlist = fl\<rparr> rest"
    using Cons.prems by (rule Cons.IH)
  finally show ?case by simp
qed

text \<open>After a written field the reader holds its text, ready for a comma or a line end.\<close>

lemma read_field:
  assumes st: "st = START_RECORD \<or> st = START_FIELD" and r: "rest \<noteq> []"
  shows "\<exists>st'. (st' = IN_FIELD \<or> st' = QUOTE_IN_QUOTED_FIELD \<or> (f = [] \<and> st' = st))
           \<and> read_rows \<lparr>state = st, field = [], fieldlist = fl\<rparr> (write_field f @ rest)
             = read_rows \<lparr>state = st', field = f, fieldlist = fl\<rparr> rest"
proof (cases "list_ex special f")
  case True
  let ?body = "concat (map (\<lambda>c. if c = quotechar then [c, c] else [c]) f)"
  have w: "write_field f @ rest = quotechar # ?body @ quotechar # rest"
    using True by (simp add: write_field_def)
  have e1: "\<not> ends_line quotechar (?body @ quotechar # rest)"
    by (simp add: ends_line_plain chars_distinct)
  have e2: "\<not> ends_line quotechar rest"
    using r by (simp add: ends_line_plain chars_distinct)
  have "read_rows \<lparr>state = st, field = [], fieldlist = fl\<rparr> (write_field f @ rest)
        = read_rows \<lparr>state = IN_QUOTED_FIELD, field = [], fieldlist = fl\<rparr>
            (?body @ quotechar # rest)"
    unfolding w using st e1 by (auto simp: chars_distinct)
  also have "\<dots> = read_rows \<lparr>state = IN_QUOTED_FIELD, field = [] @ f, fieldlist = fl\<rparr>
                      (quotechar # rest)"
    by (rule read_quoted_body) simp
  also have "\<dots> = read_rows \<lparr>state = QUOTE_IN_QUOTED_FIELD, field = f, fieldlist = fl\<rparr> rest"
    using e2 by simp
  finally show ?thesis by blast
next
  case False
  then have w: "write_field f = f" by (simp add: write_field_def)
  show ?thesis
  proof (cases "f = []")
    case True
    with w show ?thesis by (intro exI [of _ st]) simp
  next
    case ne: False
    from read_unquoted_start [OF ne False r st] w show ?thesis by auto
  qed
qed

lemma read_field_delim:
  assumes st: "st = START_RECORD \<or> st = START_FIELD" and r: "rest \<noteq> []"
  shows "read_rows \<lparr>state = st, field = [], fieldlist = fl\<rparr> (write_field f @ delimiter # rest)
         = read_rows \<lparr>state = START_FIELD, field = [], fieldlist = fl @ [f]\<rparr> rest"
proof -
  from read_field [OF st, of "delimiter # rest" f fl] obtain st' where
    s: "st' = IN_FIELD \<or> st' = QUOTE_IN_QUOTED_FIELD \<or> (f = [] \<and> st' = st)"
    and e: "read_rows \<lparr>state = st, field = [], fieldlist = fl\<rparr> (write_field f @ delimiter # rest)
             = read_rows \<lparr>state = st', field = f, fieldlist = fl\<rparr> (delimiter # rest)"
    by auto
  have d: "\<not> ends_line delimiter rest" using r by (simp add: ends_line_plain chars_distinct)
  from s st have "st' = IN_FIELD \<or> st' = QUOTE_IN_QUOTED_FIELD \<or> st' = START_RECORD
                  \<or> st' = START_FIELD" by auto
  then have "read_rows \<lparr>state = st', field = f, fieldlist = fl\<rparr> (delimiter # rest)
        = read_rows \<lparr>state = START_FIELD, field = [], fieldlist = fl @ [f]\<rparr> rest"
    using d by (auto simp: save_field_def chars_distinct)
  with e show ?thesis by simp
qed

lemma read_field_end:
  "read_rows \<lparr>state = START_FIELD, field = [], fieldlist = fl\<rparr> (write_field f @ CR # LF # rest)
   = (case read_rows reset rest of Inl e \<Rightarrow> Inl e | Inr rows \<Rightarrow> Inr ((fl @ [f]) # rows))"
proof -
  from read_field [of START_FIELD "CR # LF # rest" f fl] obtain st' where
    s: "st' = IN_FIELD \<or> st' = QUOTE_IN_QUOTED_FIELD \<or> st' = START_FIELD"
    and e: "read_rows \<lparr>state = START_FIELD, field = [], fieldlist = fl\<rparr>
              (write_field f @ CR # LF # rest)
             = read_rows \<lparr>state = st', field = f, fieldlist = fl\<rparr> (CR # LF # rest)"
    by auto
  from s have "read_rows \<lparr>state = st', field = f, fieldlist = fl\<rparr> (CR # LF # rest)
        = read_rows \<lparr>state = EAT_CRNL, field = [], fieldlist = fl @ [f]\<rparr> (LF # rest)"
    using ends_line_CR_LF [of rest] by (auto simp: save_field_def chars_distinct)
  also have "\<dots> = (case read_rows reset rest of Inl e \<Rightarrow> Inl e
                     | Inr rows \<Rightarrow> Inr ((fl @ [f]) # rows))"
    using ends_line_LF [of rest] by (simp cong: sum.case_cong)
  finally show ?thesis using e by simp
qed

lemma read_fields:
  "fs \<noteq> [] \<Longrightarrow>
     read_rows \<lparr>state = START_FIELD, field = [], fieldlist = fl\<rparr>
       (join [delimiter] (map write_field fs) @ CR # LF # rest)
     = (case read_rows reset rest of Inl e \<Rightarrow> Inl e | Inr rows \<Rightarrow> Inr ((fl @ fs) # rows))"
proof (induction fs arbitrary: fl)
  case Nil
  then show ?case by simp
next
  case (Cons f fs)
  show ?case
  proof (cases fs)
    case Nil
    show ?thesis unfolding Nil using read_field_end [of fl f rest] by simp
  next
    case (Cons g gs)
    then have j: "join [delimiter] (map write_field (f # fs)) @ CR # LF # rest
                  = write_field f @ delimiter # (join [delimiter] (map write_field fs) @ CR # LF # rest)"
      by simp
    have "read_rows \<lparr>state = START_FIELD, field = [], fieldlist = fl\<rparr>
            (join [delimiter] (map write_field (f # fs)) @ CR # LF # rest)
          = read_rows \<lparr>state = START_FIELD, field = [], fieldlist = fl @ [f]\<rparr>
              (join [delimiter] (map write_field fs) @ CR # LF # rest)"
      unfolding j by (rule read_field_delim) simp_all
    also have "\<dots> = (case read_rows reset rest of Inl e \<Rightarrow> Inl e
                       | Inr rows \<Rightarrow> Inr (((fl @ [f]) @ fs) # rows))"
      using Cons by (intro Cons.IH) simp
    finally show ?thesis by (simp cong: sum.case_cong)
  qed
qed

lemma read_row:
  assumes "2 \<le> length row"
  shows "read_rows reset (writerow row @ rest)
         = (case read_rows reset rest of Inl e \<Rightarrow> Inl e | Inr rows \<Rightarrow> Inr (row # rows))"
proof -
  from assms obtain f g gs where row: "row = f # g # gs"
    by (cases row; cases "tl row") auto
  then have w: "writerow row @ rest
                = write_field f @ delimiter # (join [delimiter] (map write_field (g # gs)) @ CR # LF # rest)"
    by (simp add: writerow_def)
  have "read_rows reset (writerow row @ rest)
        = read_rows \<lparr>state = START_FIELD, field = [], fieldlist = [] @ [f]\<rparr>
            (join [delimiter] (map write_field (g # gs)) @ CR # LF # rest)"
    unfolding w reset_def by (rule read_field_delim) simp_all
  also have "\<dots> = (case read_rows reset rest of Inl e \<Rightarrow> Inl e
                     | Inr rows \<Rightarrow> Inr ((([] @ [f]) @ (g # gs)) # rows))"
    by (rule read_fields) simp
  finally show ?thesis unfolding row by (simp cong: sum.case_cong)
qed

lemma read_written_rows:
  "list_all (\<lambda>row. 2 \<le> length row) rows \<Longrightarrow>
     csv_reader (concat (map writerow rows)) = Inr rows"
proof (induction rows)
  case Nil
  then show ?case by (simp add: csv_reader_def reset_def)
next
  case (Cons row rows)
  then have "2 \<le> length row" and IH: "read_rows reset (concat (map writerow rows)) = Inr rows"
    by (simp_all add: csv_reader_def)
  from read_row [OF this(1), of "concat (map writerow rows)"] IH
  show ?case by (simp add: csv_reader_def)
qed

section \<open>The file written\<close>

lemma foldl_append_rows:
  "foldl (\<lambda>csvfile p. csvfile @ w p) init ps = init @ concat (map w ps)"
  by (induction ps arbitrary: init) simp_all

lemma save_to_csv_rows:
  "products \<noteq> [] \<Longrightarrow>
     save_to_csv products = Some (concat (map writerow (fieldnames # map row_of products)))"
  by (simp add: save_to_csv_def foldl_append_rows comp_def)










section \<open>The round trip\<close>

lemma row_of_length: "list_all (\<lambda>row. 2 \<le> length row) (fieldnames # map row_of products)"
  by (simp add: list_all_iff fieldnames_def row_of_def)

lemma titles_of_rows: "map (\<lambda>row. row ! 1) (map row_of products) = map title products"
  by (simp add: row_of_def)

text \<open>
  C9, as stated, fails for no records: nothing is written, so no file with the header
  is there to read back.
\<close>

theorem round_trip_counterexample:
  "save_to_csv [] = None
   \<and> map_option csv_reader (save_to_csv []) \<noteq> Some (Inr (fieldnames # map row_of []))"
  by (simp add: save_to_csv_def)

text \<open>
  C9, amended.  For one record or more, whatever their texts, reading back the file that
  \<open>save_to_csv\<close> wrote gives the header row and then one row for each record, in
  order, with the cells as they were given to the writer; the second cell of each row is
  the title of its record, unescaped, with its commas, quotes and line breaks.
\<close>

theorem csv_round_trip:
  "products \<noteq> [] \<longrightarrow>
     (\<exists>file. save_to_csv products = Some file
        \<and> csv_reader file = Inr (fieldnames # map row_of products))
     \<and> length (map row_of products) = length products
     \<and> map (\<lambda>row. row ! 1) (map row_of products) = map title products"
proof
  assume ne: "products \<noteq> []"
  have "csv_reader (concat (map writerow (fieldnames # map row_of products)))
        = Inr (fieldnames # map row_of products)"
    using row_of_length by (rule read_written_rows)
  with save_to_csv_rows [OF ne] titles_of_rows [of products]
  show "(\<exists>file. save_to_csv products = Some file
        \<and> csv_reader file = Inr (fieldnames # map row_of products))
     \<and> length (map row_of products) = length products
     \<and> map (\<lambda>row. row ! 1) (map row_of products) = map title products"
    by simp
qed

theorem csv_round_trip_witness:
  "[record_Q] \<noteq> []
   \<and> (\<exists>file. save_to_csv [record_Q] = Some file
         \<and> csv_reader file = Inr [fieldnames, row_of record_Q])
   \<and> row_of record_Q ! 1 = ''Nice, '' @ [quotechar] @ ''big'' @ [quotechar, LF] @ ''Widget''"
proof -
  have "row_of record_Q ! 1 = ''Nice, '' @ [quotechar] @ ''big'' @ [quotechar, LF] @ ''Widget''"
    by (simp add: row_of_def record_Q_def)
  with csv_round_trip [of "[record_Q]"] show ?thesis by simp
qed

end
